theory Spec2Isabelle
  imports Main
begin

section \<open>The prefetching storage service\<close>

text \<open>
  The class \<^verbatim>\<open>PrefetchDocumentStorageService\<close> wraps a storage service. Its own fields
  are the blob cache and the enabled flag. The wrapped storage and the promises it hands
  out belong to the environment; they are made explicit here:
  \<^item> every call the wrapped storage receives is appended to a call log, and the promise it
    returns is identified by the position of the call in that log, so that every call
    returns a promise distinct from all earlier ones;
  \<^item> a promise settles when the environment says so (the event \<open>Settle\<close> below), at any
    later moment and with any outcome;
  \<^item> a callback attached with \<^verbatim>\<open>then\<close> is kept with its promise and runs when that promise
    settles.
  Strings are lists of characters; the blob names compared by the code are ASCII.
\<close>

subsection \<open>Data\<close>

type_synonym promise = nat

text \<open>A version is opaque to this class: it is only handed on to the storage.\<close>

type_synonym IVersion = string

text \<open>
  \<^verbatim>\<open>ISnapshotTree\<close>: three objects used as dictionaries. Each is the list of its entries in
  the order \<^verbatim>\<open>Object.keys\<close> enumerates them. A blob entry may hold \<^verbatim>\<open>null\<close> (\<open>None\<close>).
\<close>

datatype ISnapshotTree =
  SnapshotTree (blobs: "(string \<times> string option) list")
               (commits: "(string \<times> string) list")
               (trees: "(string \<times> ISnapshotTree) list")

datatype storage_call =
    StorageRead string
  | StorageGetVersions "string option" int
  | StorageGetSnapshotTree "IVersion option"

datatype settlement =
    ResolvedBlob "string option"
  | ResolvedVersions "IVersion list"
  | ResolvedTree "ISnapshotTree option"
  | Rejected string

text \<open>
  The two callbacks the class attaches to storage promises: the one of
  \<^verbatim>\<open>getSnapshotTree\<close> (walk the tree) and the one of the commit loop of
  \<^verbatim>\<open>prefetchTreeCore\<close> (fetch the snapshot tree of the nested document).
\<close>

datatype continuation = WalkTree | NestedCommit

record PrefetchDocumentStorageService =
  prefetchCache :: "string \<rightharpoonup> promise"
  prefetchEnabled :: bool
  storage :: "storage_call list"
  settled :: "promise \<rightharpoonup> settlement"
  thens :: "(promise \<times> continuation) list"

text \<open>The object right after its constructor has run.\<close>

definition new_service :: PrefetchDocumentStorageService where
  "new_service =
     \<lparr>prefetchCache = Map.empty, prefetchEnabled = True, storage = [],
      settled = Map.empty, thens = []\<rparr>"

subsection \<open>String primitives of the source\<close>

text \<open>\<^verbatim>\<open>s[0]\<close>: the one-character string at index 0, \<^verbatim>\<open>undefined\<close> for the empty string.\<close>

definition charAt0 :: "string \<Rightarrow> string option" where
  "charAt0 s = (case s of [] \<Rightarrow> None | c # _ \<Rightarrow> Some [c])"

text \<open>\<^verbatim>\<open>s.indexOf(t)\<close>: the first position at which \<open>t\<close> occurs in \<open>s\<close>, or -1.\<close>

fun indexOfFrom :: "string \<Rightarrow> string \<Rightarrow> int \<Rightarrow> int" where
  "indexOfFrom [] t i = (if t = [] then i else - 1)"
| "indexOfFrom (c # s) t i =
     (if take (length t) (c # s) = t then i else indexOfFrom s t (i + 1))"

definition indexOf :: "string \<Rightarrow> string \<Rightarrow> int" where
  "indexOf s t = indexOfFrom s t 0"

subsection \<open>Calls to the wrapped storage\<close>

definition storage_call :: "storage_call \<Rightarrow> PrefetchDocumentStorageService \<Rightarrow>
    promise \<times> PrefetchDocumentStorageService" where
  "storage_call c s = (length (storage s), s\<lparr>storage := storage s @ [c]\<rparr>)"

definition reads_of :: "string \<Rightarrow> PrefetchDocumentStorageService \<Rightarrow> nat" where
  "reads_of blobId s = count_list (storage s) (StorageRead blobId)"

subsection \<open>The methods\<close>

definition cachedRead :: "string \<Rightarrow> PrefetchDocumentStorageService \<Rightarrow>
    promise \<times> PrefetchDocumentStorageService" where
  "cachedRead blobId s =
     (if prefetchEnabled s then
        (case prefetchCache s blobId of
           Some prefetchedBlobP \<Rightarrow> (prefetchedBlobP, s)
         | None \<Rightarrow>
             (case storage_call (StorageRead blobId) s of
                (prefetchedBlobPFromStorage, s1) \<Rightarrow>
                  (prefetchedBlobPFromStorage,
                   s1\<lparr>prefetchCache :=
                        (prefetchCache s1)(blobId \<mapsto> prefetchedBlobPFromStorage)\<rparr>)))
      else storage_call (StorageRead blobId) s)"

text \<open>
  \<^verbatim>\<open>read\<close> is an \<^verbatim>\<open>async\<close> method returning \<^verbatim>\<open>this.cachedRead(blobId)\<close>: the promise it
  returns follows the promise of \<open>cachedRead\<close> and is identified with it.
\<close>

definition read :: "string \<Rightarrow> PrefetchDocumentStorageService \<Rightarrow>
    promise \<times> PrefetchDocumentStorageService" where
  "read blobId s = cachedRead blobId s"

definition getVersions :: "string option \<Rightarrow> int \<Rightarrow> PrefetchDocumentStorageService \<Rightarrow>
    promise \<times> PrefetchDocumentStorageService" where
  "getVersions commitId count s = storage_call (StorageGetVersions commitId count) s"

definition stopPrefetch :: "PrefetchDocumentStorageService \<Rightarrow> PrefetchDocumentStorageService" where
  "stopPrefetch s = s\<lparr>prefetchEnabled := False, prefetchCache := Map.empty\<rparr>"

text \<open>
  \<^verbatim>\<open>getSnapshotTree\<close>: the storage is asked first; the flag is tested in the same call, and
  only when it is set is the walking callback attached to the promise. The storage
  interface returns a promise, so the test \<^verbatim>\<open>p &&\<close> is true.
\<close>

definition getSnapshotTree :: "IVersion option \<Rightarrow> PrefetchDocumentStorageService \<Rightarrow>
    promise \<times> PrefetchDocumentStorageService" where
  "getSnapshotTree version s =
     (case storage_call (StorageGetSnapshotTree version) s of
        (p, s1) \<Rightarrow>
          if prefetchEnabled s1 then (p, s1\<lparr>thens := thens s1 @ [(p, WalkTree)]\<rparr>)
          else (p, s1))"

text \<open>The body of the first loop of \<^verbatim>\<open>prefetchTreeCore\<close>, for one blob entry.\<close>

definition classifyBlob :: "string \<times> string option \<Rightarrow>
    string list \<times> PrefetchDocumentStorageService \<Rightarrow>
    string list \<times> PrefetchDocumentStorageService" where
  "classifyBlob entry acc =
     (case (entry, acc) of ((blobKey, blob), (secondary, s)) \<Rightarrow>
        if charAt0 blobKey = Some ''.'' \<or> blobKey = ''header''
           \<or> indexOf blobKey ''quorum'' = 0 then
          (case blob of
             Some b \<Rightarrow> (secondary, snd (cachedRead b s))
           | None \<Rightarrow> (secondary, s))
        else if charAt0 blobKey \<noteq> Some ''deltas'' then
          (case blob of
             Some b \<Rightarrow> (secondary @ [b], s)
           | None \<Rightarrow> (secondary, s))
        else (secondary, s))"

text \<open>
  The body of the second loop, for one commit entry: the versions are requested at once,
  the rest of the chain waits for them.
\<close>

definition prefetchCommit :: "string \<times> string \<Rightarrow>
    string list \<times> PrefetchDocumentStorageService \<Rightarrow>
    string list \<times> PrefetchDocumentStorageService" where
  "prefetchCommit entry acc =
     (case (entry, acc) of ((commit, commitId), (secondary, s)) \<Rightarrow>
        (case getVersions (Some commitId) 1 s of
           (p, s1) \<Rightarrow> (secondary, s1\<lparr>thens := thens s1 @ [(p, NestedCommit)]\<rparr>)))"

fun prefetchTreeCore :: "ISnapshotTree \<Rightarrow>
    string list \<times> PrefetchDocumentStorageService \<Rightarrow>
    string list \<times> PrefetchDocumentStorageService" where
  "prefetchTreeCore (SnapshotTree bs cs ts) acc =
     fold (\<lambda>subTree. prefetchTreeCore (snd subTree)) ts
       (fold prefetchCommit cs (fold classifyBlob bs acc))"

definition readAll :: "string list \<Rightarrow> PrefetchDocumentStorageService \<Rightarrow>
    PrefetchDocumentStorageService" where
  "readAll secondary s = fold (\<lambda>blob s'. snd (cachedRead blob s')) secondary s"

definition prefetchTree :: "ISnapshotTree \<Rightarrow> PrefetchDocumentStorageService \<Rightarrow>
    PrefetchDocumentStorageService" where
  "prefetchTree tree s =
     (case prefetchTreeCore tree ([], s) of (secondary, s1) \<Rightarrow> readAll secondary s1)"

subsection \<open>Promises settling\<close>

text \<open>
  What a callback does with the value of its promise. The walking callback returns at
  once on a missing tree; it has no rejection handler. The callback of the commit loop
  calls \<^verbatim>\<open>getSnapshotTree(moduleCommit[0])\<close>, where \<^verbatim>\<open>moduleCommit[0]\<close> is \<^verbatim>\<open>undefined\<close> for
  an empty array; a rejection is only written to the debug log.
\<close>

definition runContinuation :: "settlement \<Rightarrow> continuation \<Rightarrow>
    PrefetchDocumentStorageService \<Rightarrow> PrefetchDocumentStorageService" where
  "runContinuation v k s =
     (case k of
        WalkTree \<Rightarrow>
          (case v of ResolvedTree (Some tree) \<Rightarrow> prefetchTree tree s | _ \<Rightarrow> s)
      | NestedCommit \<Rightarrow>
          (case v of
             ResolvedVersions moduleCommit \<Rightarrow>
               snd (getSnapshotTree (case moduleCommit of [] \<Rightarrow> None | v0 # _ \<Rightarrow> Some v0) s)
           | _ \<Rightarrow> s))"

text \<open>A value fits a promise when it is a rejection or of the kind the call resolves to.\<close>

definition fits :: "storage_call \<Rightarrow> settlement \<Rightarrow> bool" where
  "fits c v =
     (case v of
        Rejected _ \<Rightarrow> True
      | ResolvedBlob _ \<Rightarrow> (case c of StorageRead _ \<Rightarrow> True | _ \<Rightarrow> False)
      | ResolvedVersions _ \<Rightarrow> (case c of StorageGetVersions _ _ \<Rightarrow> True | _ \<Rightarrow> False)
      | ResolvedTree _ \<Rightarrow> (case c of StorageGetSnapshotTree _ \<Rightarrow> True | _ \<Rightarrow> False))"

text \<open>
  A promise settles once. Settling a promise that was never handed out, that has settled
  already, or with a value of the wrong kind, is no event of the program and changes
  nothing. Otherwise the outcome is recorded and the callbacks attached to the promise run
  in the order they were attached.
\<close>

definition settle :: "promise \<Rightarrow> settlement \<Rightarrow> PrefetchDocumentStorageService \<Rightarrow>
    PrefetchDocumentStorageService" where
  "settle p v s =
     (if p < length (storage s) \<and> settled s p = None \<and> fits (storage s ! p) v then
        fold (runContinuation v) (map snd (filter (\<lambda>t. fst t = p) (thens s)))
          (s\<lparr>settled := (settled s)(p \<mapsto> v),
             thens := filter (\<lambda>t. fst t \<noteq> p) (thens s)\<rparr>)
      else s)"

subsection \<open>Runs\<close>

text \<open>
  What can happen to the object: a caller invokes a public method, or the environment
  settles a promise. The public methods left out (\<^verbatim>\<open>getContent\<close>, \<^verbatim>\<open>write\<close>,
  \<^verbatim>\<open>createBlob\<close>, \<^verbatim>\<open>getRawUrl\<close>, \<^verbatim>\<open>repositoryUrl\<close>) hand their call on to the storage as
  \<^verbatim>\<open>getVersions\<close> does, and touch neither the cache nor the flag.
\<close>

datatype event =
    CallRead string
  | CallGetSnapshotTree "IVersion option"
  | CallGetVersions "string option" int
  | CallStopPrefetch
  | Settle promise settlement

definition step :: "event \<Rightarrow> PrefetchDocumentStorageService \<Rightarrow>
    PrefetchDocumentStorageService" where
  "step e s =
     (case e of
        CallRead blobId \<Rightarrow> snd (read blobId s)
      | CallGetSnapshotTree version \<Rightarrow> snd (getSnapshotTree version s)
      | CallGetVersions commitId count \<Rightarrow> snd (getVersions commitId count s)
      | CallStopPrefetch \<Rightarrow> stopPrefetch s
      | Settle p v \<Rightarrow> settle p v s)"

definition run :: "event list \<Rightarrow> PrefetchDocumentStorageService \<Rightarrow>
    PrefetchDocumentStorageService" where
  "run es s = fold step es s"

text \<open>
  Promises held by the object have been handed out: the cached ones, the settled ones and
  the ones with callbacks attached are positions of the call log.
\<close>

definition issued :: "PrefetchDocumentStorageService \<Rightarrow> bool" where
  "issued s \<longleftrightarrow>
     (\<forall>b p. prefetchCache s b = Some p \<longrightarrow> p < length (storage s)) \<and>
     (\<forall>p v. settled s p = Some v \<longrightarrow> p < length (storage s)) \<and>
     (\<forall>t \<in> set (thens s). fst t < length (storage s))"

subsection \<open>Properties kept by every step\<close>

text \<open>
  A property of the object is stable when the elementary actions keep it: a cached read,
  a storage call other than a blob read, such a call with a callback attached to its
  promise, dropping callbacks, and recording the outcome of an unsettled promise.
\<close>

definition stable :: "(PrefetchDocumentStorageService \<Rightarrow> bool) \<Rightarrow> bool" where
  "stable Q \<longleftrightarrow>
     (\<forall>b s. Q s \<longrightarrow> Q (snd (cachedRead b s))) \<and>
     (\<forall>c s. (\<forall>b. c \<noteq> StorageRead b) \<longrightarrow> Q s \<longrightarrow> Q (snd (storage_call c s))) \<and>
     (\<forall>c k s. (\<forall>b. c \<noteq> StorageRead b) \<longrightarrow> Q s \<longrightarrow>
        Q (s\<lparr>storage := storage s @ [c], thens := thens s @ [(length (storage s), k)]\<rparr>)) \<and>
     (\<forall>f s. Q s \<longrightarrow> Q (s\<lparr>thens := filter f (thens s)\<rparr>)) \<and>
     (\<forall>p v s. Q s \<longrightarrow> p < length (storage s) \<longrightarrow> settled s p = None \<longrightarrow>
        Q (s\<lparr>settled := (settled s)(p \<mapsto> v)\<rparr>))"

text \<open>The cache holds promise \<open>p\<close> for \<open>B\<close>, and the storage has been asked \<open>k\<close> times for \<open>B\<close>.\<close>

definition holds_entry :: "string \<Rightarrow> promise \<Rightarrow> nat \<Rightarrow> PrefetchDocumentStorageService \<Rightarrow> bool" where
  "holds_entry B p k s \<longleftrightarrow>
     prefetchEnabled s \<and> prefetchCache s B = Some p \<and> reads_of B s = k"

text \<open>A tree with an eager blob, an ordinary blob, a nested commit and a nested tree.\<close>

definition example_tree :: ISnapshotTree where
  "example_tree =
     SnapshotTree [(''.attr'', Some ''b1''), (''body'', Some ''b'')] [(''sub'', ''c1'')]
       [(''t'', SnapshotTree [(''header'', Some ''b'')] [] [])]"

text \<open>Prefetching is off and the cache is empty.\<close>

definition disabled :: "PrefetchDocumentStorageService \<Rightarrow> bool" where
  "disabled s \<longleftrightarrow> \<not> prefetchEnabled s \<and> prefetchCache s = Map.empty"

text \<open>The storage has received at least \<open>n\<close> calls.\<close>

definition at_least :: "nat \<Rightarrow> PrefetchDocumentStorageService \<Rightarrow> bool" where
  "at_least n s \<longleftrightarrow> n \<le> length (storage s)"

text \<open>The entry for \<open>B\<close> is held and its promise has settled with \<open>v\<close>.\<close>

definition holds_failure :: "string \<Rightarrow> promise \<Rightarrow> nat \<Rightarrow> settlement \<Rightarrow>
    PrefetchDocumentStorageService \<Rightarrow> bool" where
  "holds_failure B p k v s \<longleftrightarrow> holds_entry B p k s \<and> settled s p = Some v"

text \<open>
  Promise \<open>p\<close> is the one of the storage call \<open>c\<close>, and no callback is attached to it.
\<close>

definition bare :: "promise \<Rightarrow> storage_call \<Rightarrow> PrefetchDocumentStorageService \<Rightarrow> bool" where
  "bare p c s \<longleftrightarrow>
     p < length (storage s) \<and> storage s ! p = c \<and> list_all (\<lambda>t. fst t \<noteq> p) (thens s)"

text \<open>
  A step of the walk is oblivious of the accumulator when it only appends to it: what it
  appends and what it does to the object do not depend on what was collected before.
\<close>

definition oblivious :: "(string list \<times> PrefetchDocumentStorageService \<Rightarrow>
    string list \<times> PrefetchDocumentStorageService) \<Rightarrow> bool" where
  "oblivious F \<longleftrightarrow>
     (\<forall>secondary s. F (secondary, s) = (secondary @ fst (F ([], s)), snd (F ([], s))))"

section \<open>The document service: connecting\<close>

text \<open>
  \<^verbatim>\<open>DocumentService.connect\<close> starts three asynchronous branches and joins them with
  \<^verbatim>\<open>Promise.all\<close>. The collaborators (key generation, blob storage, delta storage, the
  socket) are outside this class; the environment below fixes how each of them answers and
  when the handshake is acknowledged relative to the storage answers. Sub-object
  descriptors, messages and commits are opaque to this class.
\<close>

subsection \<open>Data\<close>

type_synonym ICommit = string
type_synonym IDistributedObject = string
type_synonym ISequencedDocumentMessage = string

record IDocumentAttributes =
  minimumSequenceNumber :: int
  sequenceNumber :: int

record IDocumentHeader =
  attributes :: IDocumentAttributes
  distributedObjects :: "IDistributedObject list"
  transformedMessages :: "ISequencedDocumentMessage list"
  tree :: "ISnapshotTree option"

definition emptyHeader :: IDocumentHeader where
  "emptyHeader =
     \<lparr>attributes = \<lparr>minimumSequenceNumber = 0, sequenceNumber = 0\<rparr>,
      distributedObjects = [],
      transformedMessages = [],
      tree = None\<rparr>"

text \<open>A header as a storage could return it.\<close>

definition storedHeader :: IDocumentHeader where
  "storedHeader =
     \<lparr>attributes = \<lparr>minimumSequenceNumber = 3, sequenceNumber = 7\<rparr>,
      distributedObjects = [''map''],
      transformedMessages = [''m5''],
      tree = None\<rparr>"

text \<open>The message of the handshake: \<^verbatim>\<open>{ id, privateKey, publicKey, encrypted }\<close>.\<close>

datatype IConnect = IConnect string string string bool

text \<open>Its acknowledgement.\<close>

datatype IConnected =
  IConnected (clientId: string) (existing: bool) (privateKey: string) (publicKey: string)

text \<open>
  The objects built at the end of \<open>connect\<close> are values of classes that are not part of
  this class; each is represented by the arguments of its constructor (the service itself
  left out).
\<close>

datatype DocumentDeltaConnection =
  DocumentDeltaConnection (documentId: string) (clientId: string) (encrypted: bool)
    (privateKey: string) (publicKey: string)

datatype DocumentDeltaStorageService = DocumentDeltaStorageService string

datatype DocumentStorageService = DocumentStorageService string "ICommit option"

record Document =
  documentId :: string
  clientId :: string
  existing :: bool
  version :: "ICommit option"
  deltaConnection :: DocumentDeltaConnection
  documentStorageService :: DocumentStorageService
  deltaStorageService :: DocumentDeltaStorageService
  distributedObjects :: "IDistributedObject list"
  pendingDeltas :: "ISequencedDocumentMessage list"
  transformedMessages :: "ISequencedDocumentMessage list"
  sequenceNumber :: int
  minimumSequenceNumber :: int
  tree :: "ISnapshotTree option"

subsection \<open>Promises of the collaborators\<close>

text \<open>
  A rejection carries the reason the collaborator gave, or the \<^verbatim>\<open>TypeError\<close> the runtime
  throws on reading a property of \<^verbatim>\<open>null\<close>.
\<close>

datatype js_error = Reason string | TypeError

text \<open>A promise never settles, is rejected, or is fulfilled.\<close>

datatype 'a answer = Never | Fails js_error | Gives 'a

text \<open>
  The header fetch is followed by the delta fetch; the handshake is independent of both.
  It is acknowledged before the header arrives, between header and deltas, or after the
  deltas.
\<close>

datatype arrival = BeforeHeader | BeforeDeltas | AfterDeltas

text \<open>
  The environment: the answer of \<^verbatim>\<open>api.generateAsymmetricKeys\<close> (private and public key),
  of \<^verbatim>\<open>blobStorge.getHeader\<close>, of \<^verbatim>\<open>deltaStorage.get\<close>, the arguments \<^verbatim>\<open>(error, response)\<close>
  with which the socket calls the acknowledgement callback of \<^verbatim>\<open>connectDocument\<close> (\<open>None\<close>
  when it never calls it; an \<open>error\<close> of \<open>None\<close> is \<^verbatim>\<open>null\<close>), and the moment of that call.
\<close>

record environment =
  generateAsymmetricKeys :: "nat \<Rightarrow> string \<Rightarrow> string \<Rightarrow> (string \<times> string) answer"
  getHeader :: "string \<Rightarrow> ICommit \<Rightarrow> IDocumentHeader option answer"
  deltaStorage_get :: "string \<Rightarrow> int \<Rightarrow> ISequencedDocumentMessage list answer"
  connectDocument :: "IConnect \<Rightarrow> (string option \<times> IConnected) option"
  acknowledged :: arrival

text \<open>The calls \<open>connect\<close> makes to its collaborators.\<close>

datatype external_call =
    CallGenerateAsymmetricKeys nat string string
  | CallGetHeader string ICommit
  | CallEmit string IConnect
  | CallDeltaGet string int

subsection \<open>The branches\<close>

text \<open>The keys: generated when \<open>encrypted\<close>, empty strings otherwise.\<close>

definition keysP :: "environment \<Rightarrow> string \<Rightarrow> bool \<Rightarrow> (string \<times> string) answer" where
  "keysP env id' encrypted' =
     (if encrypted' then generateAsymmetricKeys env 2048 '''' id' else Gives ('''', ''''))"

definition headerP :: "environment \<Rightarrow> string \<Rightarrow> ICommit option \<Rightarrow>
    IDocumentHeader option answer" where
  "headerP env id' version' =
     (case version' of
        Some v \<Rightarrow> getHeader env id' v
      | None \<Rightarrow> Gives (Some emptyHeader))"

text \<open>
  The callback of the acknowledgement rejects when \<open>error\<close> is truthy: neither \<^verbatim>\<open>null\<close> nor
  the empty string.
\<close>

definition connectionP :: "environment \<Rightarrow> IConnect \<Rightarrow> IConnected answer" where
  "connectionP env connectMessage =
     (case connectDocument env connectMessage of
        None \<Rightarrow> Never
      | Some (error, response) \<Rightarrow>
          (case error of
             None \<Rightarrow> Gives response
           | Some e \<Rightarrow> if e \<noteq> [] then Fails (Reason e) else Gives response))"

text \<open>The lower bound of the delta fetch: \<^verbatim>\<open>header ? header.attributes.sequenceNumber : 0\<close>.\<close>

definition deltasFrom :: "IDocumentHeader option \<Rightarrow> int" where
  "deltasFrom header =
     (case header of Some h \<Rightarrow> IDocumentAttributes.sequenceNumber (attributes h) | None \<Rightarrow> 0)"

text \<open>\<^verbatim>\<open>headerP.then(...)\<close>: a rejected or pending header is passed on, no fetch is made.\<close>

definition pendingDeltasP :: "environment \<Rightarrow> string \<Rightarrow> IDocumentHeader option answer \<Rightarrow>
    ISequencedDocumentMessage list answer" where
  "pendingDeltasP env id' hP =
     (case hP of
        Never \<Rightarrow> Never
      | Fails e \<Rightarrow> Fails e
      | Gives header \<Rightarrow> deltaStorage_get env id' (deltasFrom header))"

subsection \<open>The join\<close>

definition rejection :: "'a answer \<Rightarrow> js_error option" where
  "rejection a = (case a of Fails e \<Rightarrow> Some e | _ \<Rightarrow> None)"

fun firstRejection :: "js_error option list \<Rightarrow> js_error option" where
  "firstRejection [] = None"
| "firstRejection (Some e # rs) = Some e"
| "firstRejection (None # rs) = firstRejection rs"

text \<open>The rejections of the three branches in the order in which they happen.\<close>

definition inOrder :: "arrival \<Rightarrow> 'a answer \<Rightarrow> 'b answer \<Rightarrow> 'c answer \<Rightarrow>
    js_error option list" where
  "inOrder a hP cP dP =
     (case a of
        BeforeHeader \<Rightarrow> [rejection cP, rejection hP, rejection dP]
      | BeforeDeltas \<Rightarrow> [rejection hP, rejection cP, rejection dP]
      | AfterDeltas \<Rightarrow> [rejection hP, rejection dP, rejection cP])"

text \<open>
  \<^verbatim>\<open>Promise.all([headerP, connectionP, pendingDeltasP])\<close> is rejected with the reason of the
  branch rejected first, is fulfilled once all three are, and stays pending otherwise.
\<close>

definition Promise_all :: "arrival \<Rightarrow> 'a answer \<Rightarrow> 'b answer \<Rightarrow> 'c answer \<Rightarrow>
    ('a \<times> 'b \<times> 'c) answer" where
  "Promise_all a hP cP dP =
     (case firstRejection (inOrder a hP cP dP) of
        Some e \<Rightarrow> Fails e
      | None \<Rightarrow>
          (case hP of
             Gives header \<Rightarrow>
               (case cP of
                  Gives connection \<Rightarrow>
                    (case dP of
                       Gives pendingDeltas' \<Rightarrow> Gives (header, connection, pendingDeltas')
                     | _ \<Rightarrow> Never)
                | _ \<Rightarrow> Never)
           | _ \<Rightarrow> Never))"

subsection \<open>connect\<close>

text \<open>What follows the \<^verbatim>\<open>await\<close> of the join: reading \<^verbatim>\<open>header.distributedObjects\<close> throws on \<^verbatim>\<open>null\<close>.\<close>

definition assemble :: "string \<Rightarrow> ICommit option \<Rightarrow> bool \<Rightarrow>
    IDocumentHeader option \<times> IConnected \<times> ISequencedDocumentMessage list \<Rightarrow>
    Document answer" where
  "assemble id' version' encrypted' joined =
     (case joined of (header, connection, pendingDeltas') \<Rightarrow>
        (case header of
           None \<Rightarrow> Fails TypeError
         | Some h \<Rightarrow>
             Gives
               \<lparr>documentId = id',
                clientId = IConnected.clientId connection,
                existing = IConnected.existing connection,
                version = version',
                deltaConnection =
                  DocumentDeltaConnection id' (IConnected.clientId connection) encrypted'
                    (IConnected.privateKey connection) (IConnected.publicKey connection),
                documentStorageService = DocumentStorageService id' version',
                deltaStorageService = DocumentDeltaStorageService id',
                distributedObjects = IDocumentHeader.distributedObjects h,
                pendingDeltas = pendingDeltas',
                transformedMessages = IDocumentHeader.transformedMessages h,
                sequenceNumber = IDocumentAttributes.sequenceNumber (attributes h),
                minimumSequenceNumber = IDocumentAttributes.minimumSequenceNumber (attributes h),
                tree = IDocumentHeader.tree h\<rparr>))"

text \<open>
  \<open>connect\<close> returns the outcome of its promise and the calls it made, in order. A failed
  or pending key generation ends it before any other call. The parameter \<open>connect\<close> of the
  source is not used by it.
\<close>

definition connect :: "environment \<Rightarrow> string \<Rightarrow> ICommit option \<Rightarrow> bool \<Rightarrow> bool \<Rightarrow>
    Document answer \<times> external_call list" where
  "connect env id' version' connectFlag encrypted' =
     (let keyCalls = (if encrypted' then [CallGenerateAsymmetricKeys 2048 '''' id'] else []) in
      case keysP env id' encrypted' of
        Never \<Rightarrow> (Never, keyCalls)
      | Fails e \<Rightarrow> (Fails e, keyCalls)
      | Gives keys \<Rightarrow>
          (let connectMessage = IConnect id' (fst keys) (snd keys) encrypted';
               hP = headerP env id' version';
               cP = connectionP env connectMessage;
               dP = pendingDeltasP env id' hP;
               calls =
                 keyCalls
                 @ (case version' of Some v \<Rightarrow> [CallGetHeader id' v] | None \<Rightarrow> [])
                 @ [CallEmit ''connectDocument'' connectMessage]
                 @ (case hP of Gives header \<Rightarrow> [CallDeltaGet id' (deltasFrom header)] | _ \<Rightarrow> [])
           in case Promise_all (acknowledged env) hP cP dP of
                Never \<Rightarrow> (Never, calls)
              | Fails e \<Rightarrow> (Fails e, calls)
              | Gives joined \<Rightarrow> (assemble id' version' encrypted' joined, calls)))"



text \<open>An environment in which everything succeeds, the handshake last.\<close>

definition friendly :: environment where
  "friendly =
     \<lparr>generateAsymmetricKeys = (\<lambda>bits passphrase i. Gives (''private'', ''public'')),
      getHeader = (\<lambda>i v. Gives (Some storedHeader)),
      deltaStorage_get = (\<lambda>i from. if from = 0 then Gives [''m1'', ''m2''] else Gives [''m8'']),
      connectDocument = (\<lambda>m. Some (None, IConnected ''client-1'' True ''k1'' ''k2'')),
      acknowledged = AfterDeltas\<rparr>"



section \<open>The document service: routing\<close>

text \<open>
  \<^verbatim>\<open>DocumentService\<close> keeps a table with three levels of objects used as dictionaries
  (event, document, client) and one socket listener per event. An inbound message is
  routed by \<^verbatim>\<open>handleMessage\<close>, which hands every registered connection a deep clone of the
  message. The messages are mutable objects, so they live in a store of objects and are
  passed around as references.
\<close>

subsection \<open>Values and objects of the runtime\<close>

type_synonym addr = nat

text \<open>A value is a primitive or a reference to an object of the store.\<close>

datatype jsval = JUndefined | JNull | JBool bool | JNum int | JStr string | JRef addr

text \<open>An object or an array: its own enumerable properties, in order.\<close>

datatype jsobj = JObject (isArray: bool) (props: "(string \<times> jsval) list")

type_synonym objects = "jsobj list"



text \<open>The objects a value gives access to.\<close>

inductive_set reach :: "objects \<Rightarrow> jsval \<Rightarrow> addr set" for h :: objects and v :: jsval where
  root: "v = JRef a \<Longrightarrow> a < length h \<Longrightarrow> a \<in> reach h v"
| step: "a \<in> reach h v \<Longrightarrow> (key, JRef b) \<in> set (props (h ! a)) \<Longrightarrow> b < length h \<Longrightarrow>
         b \<in> reach h v"



subsection \<open>cloneDeep\<close>

text \<open>
  \<^verbatim>\<open>_.cloneDeep\<close> of the library lodash: primitives are returned as they are; for an object
  a new object of the same kind is created and recorded for the original (the \<open>stack\<close>)
  before its properties are cloned in order, so that shared and cyclic structure is
  cloned once. The originals are only read. The recursion follows references, so it is
  given fuel: one unit for each object it enters. The new objects are collected in \<open>new\<close>;
  the object at position \<open>i\<close> of \<open>new\<close> gets the address \<open>length h + i\<close>.
\<close>

fun baseClone :: "nat \<Rightarrow> objects \<Rightarrow> jsval \<Rightarrow> (addr \<rightharpoonup> addr) \<times> objects \<Rightarrow>
      (jsval \<times> (addr \<rightharpoonup> addr) \<times> objects) option"
  and cloneProps :: "nat \<Rightarrow> objects \<Rightarrow> (string \<times> jsval) list \<Rightarrow>
      (addr \<rightharpoonup> addr) \<times> objects \<Rightarrow>
      ((string \<times> jsval) list \<times> (addr \<rightharpoonup> addr) \<times> objects) option" where
  "baseClone fuel h (JRef a) (stack, new) =
     (case stack a of
        Some stacked \<Rightarrow> Some (JRef stacked, stack, new)
      | None \<Rightarrow>
          if length h \<le> a then Some (JRef a, stack, new)
          else
            (case fuel of
               0 \<Rightarrow> None
             | Suc fuel' \<Rightarrow>
                 (case cloneProps fuel' h (props (h ! a))
                         (stack(a \<mapsto> length h + length new),
                          new @ [JObject (isArray (h ! a)) []]) of
                    None \<Rightarrow> None
                  | Some (ps, stack', new') \<Rightarrow>
                      Some (JRef (length h + length new), stack',
                            new'[length new := JObject (isArray (h ! a)) ps]))))"
| "baseClone fuel h JUndefined acc = Some (JUndefined, acc)"
| "baseClone fuel h JNull acc = Some (JNull, acc)"
| "baseClone fuel h (JBool b) acc = Some (JBool b, acc)"
| "baseClone fuel h (JNum n) acc = Some (JNum n, acc)"
| "baseClone fuel h (JStr s) acc = Some (JStr s, acc)"
| "cloneProps fuel h [] acc = Some ([], acc)"
| "cloneProps fuel h ((key, subValue) # rest) acc =
     (case baseClone fuel h subValue acc of
        None \<Rightarrow> None
      | Some (v, acc') \<Rightarrow>
          (case cloneProps fuel h rest acc' of
             None \<Rightarrow> None
           | Some (ps, acc'') \<Rightarrow> Some ((key, v) # ps, acc'')))"

text \<open>The fuel is the number of objects of the store: no object is entered twice.\<close>

definition cloneDeep :: "jsval \<Rightarrow> objects \<Rightarrow> (jsval \<times> objects) option" where
  "cloneDeep value h =
     (case baseClone (length h) h value (Map.empty, []) of
        None \<Rightarrow> None
      | Some (clone, stack, new) \<Rightarrow> Some (clone, h @ new))"

subsection \<open>Objects used as dictionaries\<close>

text \<open>
  The three levels of the routing table are plain objects created by \<^verbatim>\<open>{}\<close>. A plain
  object is the list of its own properties in the order of their creation, and it
  inherits the members of \<^verbatim>\<open>Object.prototype\<close>.
\<close>

definition Object_prototype :: "string list" where
  "Object_prototype =
     [''constructor'', ''hasOwnProperty'', ''isPrototypeOf'', ''propertyIsEnumerable'',
      ''toLocaleString'', ''toString'', ''valueOf'', ''__proto__'',
      ''__defineGetter__'', ''__defineSetter__'', ''__lookupGetter__'', ''__lookupSetter__'']"

text \<open>\<^verbatim>\<open>key in obj\<close>: true for own and for inherited properties.\<close>

definition hasProperty :: "string \<Rightarrow> (string \<times> 'a) list \<Rightarrow> bool" where
  "hasProperty key obj \<longleftrightarrow> key \<in> set (map fst obj) \<or> key \<in> set Object_prototype"

text \<open>\<^verbatim>\<open>obj[key]\<close>: an own property, else an inherited member, else \<^verbatim>\<open>undefined\<close>.\<close>

datatype 'a property = Own 'a | Inherited | Absent

definition getProperty :: "(string \<times> 'a) list \<Rightarrow> string \<Rightarrow> 'a property" where
  "getProperty obj key =
     (case map_of obj key of
        Some v \<Rightarrow> Own v
      | None \<Rightarrow> if key \<in> set Object_prototype then Inherited else Absent)"

text \<open>
  \<^verbatim>\<open>obj[key] = v\<close> for a key other than \<^verbatim>\<open>__proto__\<close>: an own property keeps its place, a
  new one is added at the end.
\<close>

fun setProperty :: "string \<Rightarrow> 'a \<Rightarrow> (string \<times> 'a) list \<Rightarrow> (string \<times> 'a) list" where
  "setProperty key v [] = [(key, v)]"
| "setProperty key v (p # ps) =
     (if fst p = key then (key, v) # ps else p # setProperty key v ps)"

text \<open>
  The order of \<^verbatim>\<open>for (const key in obj)\<close>: the keys that are array indices in ascending
  order, then the others in the order of their creation.
\<close>

definition isDigit :: "char \<Rightarrow> bool" where
  "isDigit c \<longleftrightarrow> 48 \<le> (of_char c :: nat) \<and> (of_char c :: nat) \<le> 57"

definition toNumber :: "string \<Rightarrow> nat" where
  "toNumber key = foldl (\<lambda>n c. 10 * n + (of_char c - 48)) 0 key"

definition isArrayIndex :: "string \<Rightarrow> bool" where
  "isArrayIndex key \<longleftrightarrow>
     key \<noteq> [] \<and> list_all isDigit key \<and>
     (if hd key = CHR ''0'' then key = ''0'' else True) \<and>
     toNumber key < 4294967295"

definition forIn :: "(string \<times> 'a) list \<Rightarrow> (string \<times> 'a) list" where
  "forIn obj =
     sort_key (\<lambda>p. toNumber (fst p)) (filter (\<lambda>p. isArrayIndex (fst p)) obj) @
     filter (\<lambda>p. \<not> isArrayIndex (fst p)) obj"

subsection \<open>The service\<close>

type_synonym ConnectionMap = "(string \<times> DocumentDeltaConnection) list"
type_synonym ObjectMap = "(string \<times> ConnectionMap) list"
type_synonym EventMap = "(string \<times> ObjectMap) list"

text \<open>
  The field \<open>eventMap\<close> of the class; the events for which \<^verbatim>\<open>socket.on\<close> has been called,
  one entry for each call; the store of objects; and the calls of \<^verbatim>\<open>dispatchEvent\<close> made
  so far: the connection, the event and the value passed. What the connection, an object
  of another class, does with the value is not followed.
\<close>

record DocumentService =
  eventMap :: EventMap
  socketListeners :: "string list"
  heap :: objects
  dispatched :: "(DocumentDeltaConnection \<times> string \<times> jsval) list"

definition new_DocumentService :: "objects \<Rightarrow> DocumentService" where
  "new_DocumentService h = \<lparr>eventMap = [], socketListeners = [], heap = h, dispatched = []\<rparr>"

text \<open>
  A call ends normally (\<open>Done\<close>), throws, or goes on to use an inherited member of
  \<^verbatim>\<open>Object.prototype\<close> where the code expects a dictionary of the table (\<open>Escapes\<close>, with
  the key and the state reached by then). Such a member is a built-in object shared by
  all objects of the program; what the call does to it is outside the table and is not
  followed further.
\<close>

datatype 'a outcome = Done 'a | Escapes string 'a | Throws js_error

definition registerForEvent :: "string \<Rightarrow> DocumentDeltaConnection \<Rightarrow> DocumentService \<Rightarrow>
    DocumentService outcome" where
  "registerForEvent event connection s =
     (let s1 =
            (if \<not> hasProperty event (eventMap s) then
               s\<lparr>eventMap := setProperty event [] (eventMap s),
                 socketListeners := socketListeners s @ [event]\<rparr>
             else s)
      in case getProperty (eventMap s1) event of
           Absent \<Rightarrow> Throws TypeError
         | Inherited \<Rightarrow> Escapes event s1
         | Own objectMap \<Rightarrow>
             (let objectMap1 =
                    (if \<not> hasProperty (DocumentDeltaConnection.documentId connection) objectMap
                     then setProperty (DocumentDeltaConnection.documentId connection) [] objectMap
                     else objectMap);
                  s2 = s1\<lparr>eventMap := setProperty event objectMap1 (eventMap s1)\<rparr>
              in case getProperty objectMap1 (DocumentDeltaConnection.documentId connection) of
                   Absent \<Rightarrow> Throws TypeError
                 | Inherited \<Rightarrow> Escapes (DocumentDeltaConnection.documentId connection) s2
                 | Own connectionMap \<Rightarrow>
                     if DocumentDeltaConnection.clientId connection = ''__proto__'' then
                       Escapes ''__proto__'' s2
                     else
                       Done (s2\<lparr>eventMap :=
                         setProperty event
                           (setProperty (DocumentDeltaConnection.documentId connection)
                              (setProperty (DocumentDeltaConnection.clientId connection)
                                 connection connectionMap)
                              objectMap1)
                           (eventMap s2)\<rparr>)))"

text \<open>
  The body of the loop of \<^verbatim>\<open>handleMessage\<close> for one property of the connection map. A
  connection is an object, so the test \<^verbatim>\<open>if (connectionMap[clientId])\<close> is true. The clone
  always returns (lemma \<open>cloneDeep_total\<close> below), so the first branch is never taken.
\<close>

definition dispatchClone :: "string \<Rightarrow> jsval \<Rightarrow> string \<times> DocumentDeltaConnection \<Rightarrow>
    DocumentService \<Rightarrow> DocumentService" where
  "dispatchClone event message entry s =
     (case cloneDeep message (heap s) of
        None \<Rightarrow> s
      | Some (clone, h) \<Rightarrow>
          s\<lparr>heap := h, dispatched := dispatched s @ [(snd entry, event, clone)]\<rparr>)"

text \<open>
  \<^verbatim>\<open>handleMessage\<close>. An inherited member found under the document identifier is an object,
  so the code goes on to the loop; the members of \<^verbatim>\<open>Object.prototype\<close> have no enumerable
  property as long as nothing has written on them, and the loop ends at once.
\<close>

definition handleMessage :: "string \<Rightarrow> string \<Rightarrow> jsval \<Rightarrow> DocumentService \<Rightarrow>
    DocumentService outcome" where
  "handleMessage event documentId' message s =
     (case getProperty (eventMap s) event of
        Absent \<Rightarrow> Done s
      | Inherited \<Rightarrow> Escapes event s
      | Own objectMap \<Rightarrow>
          (case getProperty objectMap documentId' of
             Absent \<Rightarrow> Done s
           | Inherited \<Rightarrow> Done s
           | Own connectionMap \<Rightarrow>
               Done (fold (dispatchClone event message) (forIn connectionMap) s)))"


text \<open>The entry of the table for an event, a document and a client.\<close>

definition route :: "DocumentService \<Rightarrow> string \<Rightarrow> string \<Rightarrow> string \<Rightarrow>
    DocumentDeltaConnection option" where
  "route s event documentId' clientId' =
     (case map_of (eventMap s) event of
        None \<Rightarrow> None
      | Some objectMap \<Rightarrow>
          (case map_of objectMap documentId' of
             None \<Rightarrow> None
           | Some connectionMap \<Rightarrow> map_of connectionMap clientId'))"

subsection \<open>Notions for reasoning about cloneDeep\<close>







text \<open>
  From one moment of a clone to a later one: the stack is extended, the new objects
  created so far stay as they are, and the objects entered in between got addresses
  beyond them.
\<close>

definition grows :: "objects \<Rightarrow> (addr \<rightharpoonup> addr) \<Rightarrow> objects \<Rightarrow> (addr \<rightharpoonup> addr) \<Rightarrow>
    objects \<Rightarrow> bool" where
  "grows h stack new stack' new' \<longleftrightarrow>
     stack \<subseteq>\<^sub>m stack' \<and> length new \<le> length new' \<and>
     (\<forall>i < length new. new' ! i = new ! i) \<and>
     (\<forall>a b. stack' a = Some b \<longrightarrow> stack a = None \<longrightarrow> length h + length new \<le> b)"



subsection \<open>Examples and the state of the listeners\<close>

definition alice :: DocumentDeltaConnection where
  "alice = DocumentDeltaConnection ''doc'' ''alice'' False [] []"

definition bob :: DocumentDeltaConnection where
  "bob = DocumentDeltaConnection ''doc'' ''bob'' False [] []"

text \<open>
  Two clients registered for the event \<open>op\<close> of one document; the store holds a message
  with a nested array.
\<close>

definition example_service :: DocumentService where
  "example_service =
     \<lparr>eventMap = [(''op'', [(''doc'', [(''alice'', alice), (''bob'', bob)])])],
      socketListeners = [''op''],
      heap = [JObject False [(''text'', JStr ''hi''), (''ops'', JRef 1)],
              JObject True [(''0'', JNum 1)]],
      dispatched = []\<rparr>"

text \<open>The socket listeners are the events of the table, one for each.\<close>

definition tidy :: "DocumentService \<Rightarrow> bool" where
  "tidy s \<longleftrightarrow> socketListeners s = map fst (eventMap s) \<and> distinct (map fst (eventMap s))"

text \<open>Registrations one after the other, as long as each ends normally.\<close>

fun registerAll :: "(string \<times> DocumentDeltaConnection) list \<Rightarrow> DocumentService \<Rightarrow>
    DocumentService outcome" where
  "registerAll [] s = Done s"
| "registerAll (r # rs) s =
     (case registerForEvent (fst r) (snd r) s of
        Done s' \<Rightarrow> registerAll rs s'
      | Escapes key s' \<Rightarrow> Escapes key s'
      | Throws e \<Rightarrow> Throws e)"

text \<open>
  A registration whose event and document are not names inherited from
  \<^verbatim>\<open>Object.prototype\<close> and whose client is not \<^verbatim>\<open>__proto__\<close>.
\<close>

definition ordinary :: "string \<times> DocumentDeltaConnection \<Rightarrow> bool" where
  "ordinary r \<longleftrightarrow>
     fst r \<notin> set Object_prototype \<and>
     DocumentDeltaConnection.documentId (snd r) \<notin> set Object_prototype \<and>
     DocumentDeltaConnection.clientId (snd r) \<noteq> ''__proto__''"

text \<open>The registration made last for an event, a document and a client.\<close>

definition matches :: "string \<Rightarrow> string \<Rightarrow> string \<Rightarrow> string \<times> DocumentDeltaConnection \<Rightarrow> bool" where
  "matches e d c r \<longleftrightarrow>
     fst r = e \<and> DocumentDeltaConnection.documentId (snd r) = d \<and>
     DocumentDeltaConnection.clientId (snd r) = c"

definition latest :: "(string \<times> DocumentDeltaConnection) list \<Rightarrow> string \<Rightarrow> string \<Rightarrow> string \<Rightarrow>
    DocumentDeltaConnection option" where
  "latest rs e d c =
     (case filter (matches e d c) rs of [] \<Rightarrow> None | x # xs \<Rightarrow> Some (snd (last (x # xs))))"

section \<open>Properties of the prefetching storage service\<close>

subsection \<open>Stable properties\<close>

lemma stable_cachedRead: "stable Q \<Longrightarrow> Q s \<Longrightarrow> Q (snd (cachedRead b s))"
  by (simp add: stable_def)

lemma stable_storage_call:
  "stable Q \<Longrightarrow> Q s \<Longrightarrow> \<forall>b. c \<noteq> StorageRead b \<Longrightarrow> Q (snd (storage_call c s))"
  by (simp add: stable_def)

lemma stable_attach:
  "stable Q \<Longrightarrow> Q s \<Longrightarrow> \<forall>b. c \<noteq> StorageRead b \<Longrightarrow>
   Q (s\<lparr>storage := storage s @ [c], thens := thens s @ [(length (storage s), k)]\<rparr>)"
  by (simp add: stable_def)

lemma stable_filter: "stable Q \<Longrightarrow> Q s \<Longrightarrow> Q (s\<lparr>thens := filter f (thens s)\<rparr>)"
  by (simp add: stable_def)

lemma stable_settled:
  "stable Q \<Longrightarrow> Q s \<Longrightarrow> p < length (storage s) \<Longrightarrow> settled s p = None \<Longrightarrow>
   Q (s\<lparr>settled := (settled s)(p \<mapsto> v)\<rparr>)"
  by (simp add: stable_def)

lemma storage_call_eq:
  "storage_call c s = (p, s1) \<Longrightarrow> p = length (storage s) \<and> s1 = s\<lparr>storage := storage s @ [c]\<rparr>"
  by (auto simp: storage_call_def)

lemma stable_getVersions:
  assumes "stable Q" "Q s"
  shows "Q (snd (getVersions c n s))"
  unfolding getVersions_def
  by (rule stable_storage_call [OF assms]) simp

lemma stable_getSnapshotTree:
  assumes "stable Q" "Q s"
  shows "Q (snd (getSnapshotTree v s))"
proof (cases "prefetchEnabled s")
  case True
  have "Q (s\<lparr>storage := storage s @ [StorageGetSnapshotTree v],
           thens := thens s @ [(length (storage s), WalkTree)]\<rparr>)"
    by (rule stable_attach [OF assms]) simp
  then show ?thesis using True by (simp add: getSnapshotTree_def storage_call_def)
next
  case False
  have "Q (snd (storage_call (StorageGetSnapshotTree v) s))"
    by (rule stable_storage_call [OF assms]) simp
  then show ?thesis using False by (simp add: getSnapshotTree_def storage_call_def)
qed

lemma stable_classifyBlob:
  assumes "stable Q" "Q (snd acc)"
  shows "Q (snd (classifyBlob entry acc))"
proof -
  obtain blobKey blob secondary s where e: "entry = (blobKey, blob)" "acc = (secondary, s)"
    by (cases entry; cases acc) auto
  have s: "Q s" using assms(2) e by simp
  have r: "\<And>b. Q (snd (cachedRead b s))" by (rule stable_cachedRead [OF assms(1) s])
  show ?thesis
    unfolding e classifyBlob_def using s r by (simp split: option.splits)
qed

lemma stable_prefetchCommit:
  assumes "stable Q" "Q (snd acc)"
  shows "Q (snd (prefetchCommit entry acc))"
proof -
  obtain commit commitId secondary s where e: "entry = (commit, commitId)" "acc = (secondary, s)"
    by (cases entry; cases acc) auto
  have "Q s" using assms(2) e by simp
  then have "Q (s\<lparr>storage := storage s @ [StorageGetVersions (Some commitId) 1],
           thens := thens s @ [(length (storage s), NestedCommit)]\<rparr>)"
    by (rule stable_attach [OF assms(1)]) simp
  then show ?thesis using e by (simp add: prefetchCommit_def getVersions_def storage_call_def)
qed

lemma fold_keeps: "(\<And>x a. x \<in> set xs \<Longrightarrow> P a \<Longrightarrow> P (f x a)) \<Longrightarrow> P a \<Longrightarrow> P (fold f xs a)"
  by (induction xs arbitrary: a) simp_all

lemma stable_prefetchTreeCore:
  "stable Q \<Longrightarrow> Q (snd acc) \<Longrightarrow> Q (snd (prefetchTreeCore tree' acc))"
proof (induction tree' acc rule: prefetchTreeCore.induct)
  case (1 bs cs ts acc)
  have b: "Q (snd (fold classifyBlob bs acc))"
    by (rule fold_keeps [where P = "\<lambda>a. Q (snd a)"])
       (rule stable_classifyBlob [OF "1.prems"(1)], assumption, rule "1.prems"(2))
  have c: "Q (snd (fold prefetchCommit cs (fold classifyBlob bs acc)))"
    by (rule fold_keeps [where P = "\<lambda>a. Q (snd a)"])
       (rule stable_prefetchCommit [OF "1.prems"(1)], assumption, rule b)
  have "Q (snd (fold (\<lambda>subTree. prefetchTreeCore (snd subTree)) ts
           (fold prefetchCommit cs (fold classifyBlob bs acc))))"
    by (rule fold_keeps [where P = "\<lambda>a. Q (snd a)"])
       (rule "1.IH", assumption, rule "1.prems"(1), assumption, rule c)
  then show ?case by simp
qed

lemma stable_readAll:
  assumes "stable Q" "Q s"
  shows "Q (readAll secondary s)"
  unfolding readAll_def
  by (rule fold_keeps [where P = Q]) (rule stable_cachedRead [OF assms(1)], assumption, rule assms(2))

lemma stable_prefetchTree:
  assumes "stable Q" "Q s"
  shows "Q (prefetchTree tree' s)"
proof -
  obtain secondary s1 where c: "prefetchTreeCore tree' ([], s) = (secondary, s1)"
    by (cases "prefetchTreeCore tree' ([], s)")
  have "Q (snd (prefetchTreeCore tree' ([], s)))"
    by (rule stable_prefetchTreeCore [OF assms(1)]) (simp add: assms(2))
  then have "Q s1" using c by simp
  then have "Q (readAll secondary s1)" by (rule stable_readAll [OF assms(1)])
  then show ?thesis using c by (simp add: prefetchTree_def)
qed

lemma stable_runContinuation:
  assumes "stable Q" "Q s"
  shows "Q (runContinuation v k s)"
proof (cases k)
  case WalkTree
  show ?thesis
    unfolding WalkTree runContinuation_def
    using assms(2) stable_prefetchTree [OF assms]
    by (simp split: settlement.splits option.splits)
next
  case NestedCommit
  show ?thesis
    unfolding NestedCommit runContinuation_def
    using assms(2) stable_getSnapshotTree [OF assms]
    by (simp split: settlement.splits)
qed

lemma stable_settle:
  assumes "stable Q" "Q s"
  shows "Q (settle p v s)"
proof (cases "p < length (storage s) \<and> settled s p = None \<and> fits (storage s ! p) v")
  case True
  then have "Q (s\<lparr>settled := (settled s)(p \<mapsto> v)\<rparr>)"
    using stable_settled [OF assms] by blast
  then have "Q (s\<lparr>settled := (settled s)(p \<mapsto> v), thens := filter (\<lambda>t. fst t \<noteq> p) (thens s)\<rparr>)"
    using stable_filter [OF assms(1), of "s\<lparr>settled := (settled s)(p \<mapsto> v)\<rparr>" "\<lambda>t. fst t \<noteq> p"]
    by simp
  then have "Q (fold (runContinuation v) (map snd (filter (\<lambda>t. fst t = p) (thens s)))
          (s\<lparr>settled := (settled s)(p \<mapsto> v), thens := filter (\<lambda>t. fst t \<noteq> p) (thens s)\<rparr>))"
    by (rule fold_keeps [where P = Q, rotated]) (rule stable_runContinuation [OF assms(1)])
  then show ?thesis using True by (simp add: settle_def)
next
  case False
  then show ?thesis using assms(2) by (auto simp: settle_def)
qed

lemma stable_step:
  assumes "stable Q" "Q s" "e \<noteq> CallStopPrefetch"
  shows "Q (step e s)"
proof (cases e)
  case (CallRead b)
  then show ?thesis using stable_cachedRead [OF assms(1,2)] by (simp add: step_def read_def)
next
  case (CallGetSnapshotTree v)
  then show ?thesis using stable_getSnapshotTree [OF assms(1,2)] by (simp add: step_def)
next
  case (CallGetVersions c n)
  then show ?thesis using stable_getVersions [OF assms(1,2)] by (simp add: step_def)
next
  case CallStopPrefetch
  then show ?thesis using assms(3) by simp
next
  case (Settle p v)
  then show ?thesis using stable_settle [OF assms(1,2)] by (simp add: step_def)
qed

lemma stable_run: "stable Q \<Longrightarrow> Q s \<Longrightarrow> CallStopPrefetch \<notin> set es \<Longrightarrow> Q (run es s)"
  unfolding run_def
proof (induction es arbitrary: s)
  case Nil
  then show ?case by simp
next
  case (Cons e es)
  have "Q (step e s)" by (rule stable_step [OF Cons.prems(1,2)]) (use Cons.prems(3) in auto)
  then have "Q (fold step es (step e s))"
    by (rule Cons.IH [OF Cons.prems(1)]) (use Cons.prems(3) in auto)
  then show ?case by simp
qed

lemma stable_run_all:
  assumes "stable Q" "\<And>s. Q s \<Longrightarrow> Q (stopPrefetch s)"
  shows "Q s \<Longrightarrow> Q (run es s)"
  unfolding run_def
proof (induction es arbitrary: s)
  case Nil
  then show ?case by simp
next
  case (Cons e es)
  have "Q (step e s)"
  proof (cases "e = CallStopPrefetch")
    case True
    then show ?thesis using assms(2) [OF Cons.prems] by (simp add: step_def)
  next
    case False
    then show ?thesis by (rule stable_step [OF assms(1) Cons.prems])
  qed
  then have "Q (fold step es (step e s))" by (rule Cons.IH)
  then show ?case by simp
qed

subsection \<open>cachedRead facts\<close>

lemma cachedRead_hit:
  "prefetchEnabled s \<Longrightarrow> prefetchCache s b = Some p \<Longrightarrow> cachedRead b s = (p, s)"
  by (simp add: cachedRead_def)

lemma cachedRead_miss:
  "prefetchEnabled s \<Longrightarrow> prefetchCache s b = None \<Longrightarrow>
   cachedRead b s =
     (length (storage s),
      s\<lparr>storage := storage s @ [StorageRead b],
        prefetchCache := (prefetchCache s)(b \<mapsto> length (storage s))\<rparr>)"
  by (simp add: cachedRead_def storage_call_def)

lemma cachedRead_disabled:
  "\<not> prefetchEnabled s \<Longrightarrow>
   cachedRead b s = (length (storage s), s\<lparr>storage := storage s @ [StorageRead b]\<rparr>)"
  by (simp add: cachedRead_def storage_call_def)

lemma holds_entry_cachedRead:
  assumes "holds_entry B p k s"
  shows "holds_entry B p k (snd (cachedRead b s))"
proof (cases "prefetchCache s b")
  case None
  then have "b \<noteq> B" using assms by (auto simp: holds_entry_def)
  then show ?thesis
    using assms None by (simp add: holds_entry_def cachedRead_miss reads_of_def)
next
  case (Some q)
  then show ?thesis using assms by (simp add: holds_entry_def cachedRead_hit)
qed

lemma stable_holds_entry: "stable (holds_entry B p k)"
  unfolding stable_def
proof (intro conjI allI impI)
  fix b s assume "holds_entry B p k s"
  then show "holds_entry B p k (snd (cachedRead b s))" by (rule holds_entry_cachedRead)
next
  fix c s assume "\<forall>b. c \<noteq> StorageRead b" "holds_entry B p k s"
  then show "holds_entry B p k (snd (storage_call c s))"
    by (simp add: holds_entry_def storage_call_def reads_of_def)
qed (simp_all add: holds_entry_def reads_of_def)

subsection \<open>C1: one storage read for concurrent reads of one blob\<close>

text \<open>
  Claim C1. Prefetching is enabled and the cache holds nothing for \<open>B\<close>. The first
  \<open>read B\<close> asks the storage once and stores the promise it got under \<open>B\<close> in that
  same call, before anything can settle. Whatever happens next short of \<open>stopPrefetch\<close>
  (further reads of \<open>B\<close> or of other blobs, tree fetches and their walks, promises
  settling, the one of \<open>B\<close> included), a \<open>read B\<close> returns that same promise and leaves
  the object as it is, and the storage has been asked for \<open>B\<close> exactly once more than
  before the first call. The events \<open>es\<close> are arbitrary, so the statement covers each of
  N reads of \<open>B\<close> in a row as well as any interleaving of them with other activity.
\<close>

theorem dedup_concurrent_reads:
  assumes "prefetchEnabled s" and "prefetchCache s B = None"
    and "CallStopPrefetch \<notin> set es"
  shows "fst (read B s) = length (storage s) \<and>
         reads_of B (snd (read B s)) = Suc (reads_of B s) \<and>
         prefetchCache (snd (read B s)) B = Some (fst (read B s)) \<and>
         settled (snd (read B s)) = settled s \<and>
         read B (run es (snd (read B s))) = (fst (read B s), run es (snd (read B s))) \<and>
         reads_of B (run es (snd (read B s))) = Suc (reads_of B s)"
proof -
  let ?p = "length (storage s)"
  let ?s1 = "snd (read B s)"
  have r: "read B s = (?p, s\<lparr>storage := storage s @ [StorageRead B],
        prefetchCache := (prefetchCache s)(B \<mapsto> ?p)\<rparr>)"
    unfolding read_def by (rule cachedRead_miss [OF assms(1,2)])
  have h1: "holds_entry B ?p (Suc (reads_of B s)) ?s1"
    using assms(1) by (simp add: r holds_entry_def reads_of_def)
  have "holds_entry B ?p (Suc (reads_of B s)) (run es ?s1)"
    by (rule stable_run [OF stable_holds_entry h1 assms(3)])
  then have h2: "prefetchEnabled (run es ?s1)" "prefetchCache (run es ?s1) B = Some ?p"
    "reads_of B (run es ?s1) = Suc (reads_of B s)"
    by (simp_all add: holds_entry_def)
  have "cachedRead B (run es ?s1) = (?p, run es ?s1)"
    by (rule cachedRead_hit [OF h2(1,2)])
  then have "read B (run es ?s1) = (?p, run es ?s1)"
    by (simp add: read_def)
  then show ?thesis using h2(3) by (simp add: r reads_of_def)
qed

text \<open>
  An instance: on a new object, two more reads of \<open>''b''\<close> around a tree fetch whose walk
  reads \<open>''b''\<close> twice itself.
\<close>

theorem dedup_concurrent_reads_witness:
  "prefetchEnabled new_service \<and> prefetchCache new_service ''b'' = None \<and>
   CallStopPrefetch \<notin>
     set [CallRead ''b'', CallGetSnapshotTree None,
          Settle 1 (ResolvedTree (Some example_tree)), CallRead ''b''] \<and>
   read ''b'' (run [CallRead ''b'', CallGetSnapshotTree None,
          Settle 1 (ResolvedTree (Some example_tree)), CallRead ''b'']
        (snd (read ''b'' new_service))) =
     (0, run [CallRead ''b'', CallGetSnapshotTree None,
          Settle 1 (ResolvedTree (Some example_tree)), CallRead ''b'']
        (snd (read ''b'' new_service))) \<and>
   reads_of ''b'' (run [CallRead ''b'', CallGetSnapshotTree None,
          Settle 1 (ResolvedTree (Some example_tree)), CallRead ''b'']
        (snd (read ''b'' new_service))) = 1"
proof -
  have h1: "prefetchEnabled new_service" by (simp add: new_service_def)
  have h2: "prefetchCache new_service ''b'' = None" by (simp add: new_service_def)
  have h3: "CallStopPrefetch \<notin>
     set [CallRead ''b'', CallGetSnapshotTree None,
          Settle 1 (ResolvedTree (Some example_tree)), CallRead ''b'']" by simp
  have z: "length (storage new_service) = 0" "reads_of ''b'' new_service = 0"
    by (simp_all add: new_service_def reads_of_def)
  show ?thesis
    using dedup_concurrent_reads [OF h1 h2 h3] h1 h2 h3 z by simp
qed

subsection \<open>After stopPrefetch\<close>

lemma stable_disabled: "stable disabled"
  unfolding stable_def
  by (simp add: disabled_def cachedRead_disabled storage_call_def)

lemma disabled_run: "disabled s \<Longrightarrow> disabled (run es s)"
  by (rule stable_run_all [OF stable_disabled]) (simp_all add: disabled_def stopPrefetch_def)

lemma cachedRead_storage_length:
  "length (storage s) \<le> length (storage (snd (cachedRead b s)))"
  by (simp add: cachedRead_def storage_call_def split: option.splits)

lemma stable_at_least: "stable (at_least n)"
  unfolding stable_def
proof (intro conjI allI impI)
  fix b s assume "at_least n s"
  then show "at_least n (snd (cachedRead b s))"
    using cachedRead_storage_length [of s b] by (simp add: at_least_def)
qed (simp_all add: at_least_def storage_call_def)

lemma storage_grows: "length (storage s) \<le> length (storage (run es s))"
proof -
  have "at_least (length (storage s)) (run es s)"
    by (rule stable_run_all [OF stable_at_least]) (simp_all add: at_least_def stopPrefetch_def)
  then show ?thesis by (simp add: at_least_def)
qed

lemma issued_cachedRead:
  assumes "issued s"
  shows "issued (snd (cachedRead b s))"
proof (cases "prefetchEnabled s")
  case False
  then show ?thesis using assms
    by (fastforce simp: cachedRead_disabled issued_def)
next
  case True
  show ?thesis
  proof (cases "prefetchCache s b")
    case None
    then show ?thesis using assms True
      by (fastforce simp: cachedRead_miss issued_def)
  next
    case (Some p)
    then show ?thesis using assms True by (simp add: cachedRead_hit)
  qed
qed

lemma stable_issued: "stable issued"
  unfolding stable_def
proof (intro conjI allI impI)
  fix b s assume "issued s"
  then show "issued (snd (cachedRead b s))" by (rule issued_cachedRead)
next
  fix c s assume "issued s"
  then show "issued (snd (storage_call c s))"
    by (fastforce simp: issued_def storage_call_def)
next
  fix c k s assume "issued s"
  then show "issued (s\<lparr>storage := storage s @ [c],
      thens := thens s @ [(length (storage s), k)]\<rparr>)"
    by (fastforce simp: issued_def)
next
  fix f s assume "issued s"
  then show "issued (s\<lparr>thens := filter f (thens s)\<rparr>)"
    by (auto simp: issued_def)
next
  fix p v s assume "issued s" "p < length (storage s)"
  then show "issued (s\<lparr>settled := (settled s)(p \<mapsto> v)\<rparr>)"
    by (auto simp: issued_def)
qed

lemma issued_stopPrefetch: "issued s \<Longrightarrow> issued (stopPrefetch s)"
  by (simp add: issued_def stopPrefetch_def)

lemma issued_run: "issued s \<Longrightarrow> issued (run es s)"
  by (rule stable_run_all [OF stable_issued issued_stopPrefetch])

lemma issued_new_service: "issued new_service"
  by (simp add: issued_def new_service_def)

lemma issued_fresh:
  assumes "issued s"
  shows "settled s (length (storage s)) = None"
    and "filter (\<lambda>t. fst t = length (storage s)) (thens s) = []"
    and "filter (\<lambda>t. fst t \<noteq> length (storage s)) (thens s) = thens s"
proof -
  show "settled s (length (storage s)) = None"
    using assms by (cases "settled s (length (storage s))") (auto simp: issued_def)
  have "\<forall>t \<in> set (thens s). fst t \<noteq> length (storage s)"
    using assms by (auto simp: issued_def)
  then show "filter (\<lambda>t. fst t = length (storage s)) (thens s) = []"
    and "filter (\<lambda>t. fst t \<noteq> length (storage s)) (thens s) = thens s"
    by (simp_all add: filter_empty_conv filter_id_conv)
qed

subsection \<open>C6: stopPrefetch empties the cache and switches it off for good\<close>

text \<open>
  Claim C6. Take any state whose promises have been handed out, call \<open>stopPrefetch\<close>, and
  let anything happen afterwards (\<open>es\<close> is arbitrary: reads, tree fetches, promises
  settling, further calls of \<open>stopPrefetch\<close>). Then prefetching is still off and the cache is
  still empty, so the disabled state is never left and the cache is never filled again; a
  \<open>read B\<close> goes straight to the storage: it appends one storage read of \<open>B\<close> and returns
  the new promise of that read, changing nothing else; and that promise is not the one the
  cache held for \<open>B\<close> before \<open>stopPrefetch\<close>, settled or not.
\<close>

theorem stopPrefetch_is_final:
  assumes "issued s"
  shows "\<not> prefetchEnabled (run es (stopPrefetch s)) \<and>
         prefetchCache (run es (stopPrefetch s)) = Map.empty \<and>
         read B (run es (stopPrefetch s)) =
           (length (storage (run es (stopPrefetch s))),
            (run es (stopPrefetch s))
              \<lparr>storage := storage (run es (stopPrefetch s)) @ [StorageRead B]\<rparr>) \<and>
         (\<forall>p. prefetchCache s B = Some p \<longrightarrow> fst (read B (run es (stopPrefetch s))) \<noteq> p)"
proof -
  let ?s' = "run es (stopPrefetch s)"
  have "disabled (stopPrefetch s)" by (simp add: disabled_def stopPrefetch_def)
  then have d: "disabled ?s'" by (rule disabled_run)
  then have off: "\<not> prefetchEnabled ?s'" and emp: "prefetchCache ?s' = Map.empty"
    by (simp_all add: disabled_def)
  have r: "read B ?s' = (length (storage ?s'), ?s'\<lparr>storage := storage ?s' @ [StorageRead B]\<rparr>)"
    using cachedRead_disabled [OF off] by (simp add: read_def)
  have "length (storage s) \<le> length (storage ?s')"
    using storage_grows [of "stopPrefetch s" es] by (simp add: stopPrefetch_def)
  moreover have "\<And>p. prefetchCache s B = Some p \<Longrightarrow> p < length (storage s)"
    using assms by (auto simp: issued_def)
  ultimately have "\<forall>p. prefetchCache s B = Some p \<longrightarrow> fst (read B ?s') \<noteq> p"
    using r by fastforce
  then show ?thesis using off emp r by simp
qed

text \<open>
  An instance: \<open>''b''\<close> is read and cached as promise 0, prefetching is stopped, promise 0
  resolves, \<open>''b''\<close> is read again (promise 1); the next read is promise 2 of a third
  storage read.
\<close>

theorem stopPrefetch_is_final_witness:
  "issued (snd (read ''b'' new_service)) \<and>
   prefetchCache (snd (read ''b'' new_service)) ''b'' = Some 0 \<and>
   read ''b''
     (run [Settle 0 (ResolvedBlob (Some ''text'')), CallRead ''b'']
        (stopPrefetch (snd (read ''b'' new_service)))) =
     (2, (run [Settle 0 (ResolvedBlob (Some ''text'')), CallRead ''b'']
            (stopPrefetch (snd (read ''b'' new_service))))
          \<lparr>storage := [StorageRead ''b'', StorageRead ''b'', StorageRead ''b'']\<rparr>)"
proof -
  have h: "issued (snd (read ''b'' new_service))"
    unfolding read_def by (rule issued_cachedRead [OF issued_new_service])
  have c: "prefetchCache (snd (read ''b'' new_service)) ''b'' = Some 0"
    by (simp add: read_def cachedRead_def storage_call_def new_service_def)
  have l: "storage (run [Settle 0 (ResolvedBlob (Some ''text'')), CallRead ''b'']
        (stopPrefetch (snd (read ''b'' new_service)))) = [StorageRead ''b'', StorageRead ''b'']"
    by (simp add: run_def step_def settle_def fits_def read_def cachedRead_def storage_call_def
        new_service_def stopPrefetch_def)
  show ?thesis
    using stopPrefetch_is_final [OF h, of "[Settle 0 (ResolvedBlob (Some ''text'')), CallRead ''b'']" "''b''"] h c l
    by simp
qed

subsection \<open>C7: a failed read stays cached\<close>

lemma cachedRead_settled: "settled (snd (cachedRead b s)) = settled s"
  by (simp add: cachedRead_def storage_call_def split: option.splits)

lemma stable_holds_failure: "stable (holds_failure B p k v)"
proof -
  have e: "stable (holds_entry B p k)" by (rule stable_holds_entry)
  show ?thesis
    unfolding stable_def
  proof (intro conjI allI impI)
    fix b s assume "holds_failure B p k v s"
    then show "holds_failure B p k v (snd (cachedRead b s))"
      using stable_cachedRead [OF e, of s b] by (simp add: holds_failure_def cachedRead_settled)
  next
    fix c s assume "\<forall>b. c \<noteq> StorageRead b" "holds_failure B p k v s"
    then show "holds_failure B p k v (snd (storage_call c s))"
      using stable_storage_call [OF e, of s c]
      by (simp add: holds_failure_def storage_call_def)
  next
    fix q w s assume "holds_failure B p k v s" "settled s q = None"
    then show "holds_failure B p k v (s\<lparr>settled := (settled s)(q \<mapsto> w)\<rparr>)"
      by (auto simp: holds_failure_def holds_entry_def reads_of_def)
  qed (simp_all add: holds_failure_def holds_entry_def reads_of_def)
qed

lemma cachedRead_thens: "thens (snd (cachedRead b s)) = thens s"
  by (simp add: cachedRead_def storage_call_def split: option.splits)

lemma cachedRead_storage:
  "storage (snd (cachedRead b s)) = storage s \<or>
   storage (snd (cachedRead b s)) = storage s @ [StorageRead b]"
  by (simp add: cachedRead_def storage_call_def split: option.splits)

lemma stable_bare: "stable (bare p c)"
  unfolding stable_def
proof (intro conjI allI impI)
  fix b s assume "bare p c s"
  then show "bare p c (snd (cachedRead b s))"
    using cachedRead_storage [of b s] by (auto simp: bare_def cachedRead_thens nth_append)
next
  fix c' s assume "bare p c s"
  then show "bare p c (snd (storage_call c' s))"
    by (simp add: bare_def storage_call_def nth_append)
next
  fix c' k s assume "bare p c s"
  then show "bare p c (s\<lparr>storage := storage s @ [c'],
      thens := thens s @ [(length (storage s), k)]\<rparr>)"
    by (simp add: bare_def nth_append)
next
  fix f s assume "bare p c s"
  then show "bare p c (s\<lparr>thens := filter f (thens s)\<rparr>)"
    by (simp add: bare_def list_all_iff)
next
  fix q v s assume "bare p c s"
  then show "bare p c (s\<lparr>settled := (settled s)(q \<mapsto> v)\<rparr>)"
    by (simp add: bare_def)
qed

lemma bare_run: "bare p c s \<Longrightarrow> bare p c (run es s)"
  by (rule stable_run_all [OF stable_bare]) (simp_all add: bare_def stopPrefetch_def)

lemma bare_fresh: "issued s \<Longrightarrow> bare (length (storage s)) c (snd (storage_call c s))"
  using issued_fresh(2) [of s]
  by (simp add: bare_def storage_call_def filter_empty_conv list_all_iff)

text \<open>When a promise without callbacks settles, only its outcome is recorded.\<close>

lemma settle_bare:
  assumes "bare p c s" "fits c v"
  shows "settle p v s =
     (if settled s p = None then s\<lparr>settled := (settled s)(p \<mapsto> v)\<rparr> else s)"
proof -
  have "filter (\<lambda>t. fst t = p) (thens s) = []"
    and "filter (\<lambda>t. fst t \<noteq> p) (thens s) = thens s"
    using assms(1) by (simp_all add: bare_def filter_empty_conv filter_id_conv list_all_iff)
  then show ?thesis using assms by (simp add: settle_def bare_def)
qed

text \<open>
  Claim C7. Prefetching is enabled, nothing is cached for \<open>B\<close>, and \<open>B\<close> is read: the
  storage read gets a new promise, which is cached. Other things may happen (\<open>es1\<close>) until
  that promise, not settled before, is rejected with \<open>err\<close>. The rejection only records the
  outcome: the cache never looks at outcomes, so the entry of a failure is kept exactly as
  the entry of a success is. Whatever follows (\<open>es2\<close>), short of \<open>stopPrefetch\<close>, every
  \<open>read B\<close> returns the same promise, still rejected with \<open>err\<close>, leaves the object
  unchanged, and the storage has been asked for \<open>B\<close> only the one time: nothing is
  invalidated and nothing is retried.
\<close>

theorem failed_read_stays_cached:
  assumes "prefetchEnabled s" and "prefetchCache s B = None" and "issued s"
    and "CallStopPrefetch \<notin> set es1" and "CallStopPrefetch \<notin> set es2"
    and "settled (run es1 (snd (read B s))) (fst (read B s)) = None"
  shows "settle (fst (read B s)) (Rejected err) (run es1 (snd (read B s))) =
           (run es1 (snd (read B s)))
             \<lparr>settled := (settled (run es1 (snd (read B s))))
                (fst (read B s) \<mapsto> Rejected err)\<rparr> \<and>
         read B (run es2 (settle (fst (read B s)) (Rejected err) (run es1 (snd (read B s))))) =
           (fst (read B s),
            run es2 (settle (fst (read B s)) (Rejected err) (run es1 (snd (read B s))))) \<and>
         settled (run es2 (settle (fst (read B s)) (Rejected err) (run es1 (snd (read B s)))))
             (fst (read B s)) = Some (Rejected err) \<and>
         reads_of B (run es2 (settle (fst (read B s)) (Rejected err) (run es1 (snd (read B s))))) =
           Suc (reads_of B s)"
proof -
  let ?p = "length (storage s)"
  let ?s1 = "snd (read B s)"
  let ?s2 = "run es1 ?s1"
  let ?s3 = "?s2\<lparr>settled := (settled ?s2)(?p \<mapsto> Rejected err)\<rparr>"
  have r: "read B s = (?p, s\<lparr>storage := storage s @ [StorageRead B],
        prefetchCache := (prefetchCache s)(B \<mapsto> ?p)\<rparr>)"
    unfolding read_def by (rule cachedRead_miss [OF assms(1,2)])
  have p: "fst (read B s) = ?p" by (simp add: r)
  have "bare ?p (StorageRead B) (snd (storage_call (StorageRead B) s))"
    by (rule bare_fresh [OF assms(3)])
  then have "bare ?p (StorageRead B) ?s1"
    by (simp add: r bare_def storage_call_def)
  then have b2: "bare ?p (StorageRead B) ?s2" by (rule bare_run)
  have u: "settled ?s2 ?p = None" using assms(6) by (simp add: p)
  have st: "settle ?p (Rejected err) ?s2 = ?s3"
    using settle_bare [OF b2, of "Rejected err"] u by (simp add: fits_def)
  have "holds_entry B ?p (Suc (reads_of B s)) ?s1"
    using assms(1) by (simp add: r holds_entry_def reads_of_def)
  then have "holds_entry B ?p (Suc (reads_of B s)) ?s2"
    by (rule stable_run [OF stable_holds_entry _ assms(4)])
  then have "holds_failure B ?p (Suc (reads_of B s)) (Rejected err) ?s3"
    by (simp add: holds_failure_def holds_entry_def reads_of_def)
  then have "holds_failure B ?p (Suc (reads_of B s)) (Rejected err) (run es2 ?s3)"
    by (rule stable_run [OF stable_holds_failure _ assms(5)])
  then have h: "prefetchEnabled (run es2 ?s3)" "prefetchCache (run es2 ?s3) B = Some ?p"
    "reads_of B (run es2 ?s3) = Suc (reads_of B s)"
    "settled (run es2 ?s3) ?p = Some (Rejected err)"
    by (simp_all add: holds_failure_def holds_entry_def)
  have "cachedRead B (run es2 ?s3) = (?p, run es2 ?s3)"
    by (rule cachedRead_hit [OF h(1,2)])
  then have "read B (run es2 ?s3) = (?p, run es2 ?s3)" by (simp add: read_def)
  then show ?thesis using h(3,4) by (simp only: p st)
qed

text \<open>
  An instance: on a new object \<open>''b''\<close> is read, another blob is read, the read of \<open>''b''\<close>
  fails, and \<open>''b''\<close> is read twice more.
\<close>

theorem failed_read_stays_cached_witness:
  "prefetchEnabled new_service \<and> prefetchCache new_service ''b'' = None \<and>
   issued new_service \<and> CallStopPrefetch \<notin> set [CallRead ''a''] \<and>
   CallStopPrefetch \<notin> set [CallRead ''b'', CallRead ''b''] \<and>
   settled (run [CallRead ''a''] (snd (read ''b'' new_service))) (fst (read ''b'' new_service)) =
     None \<and>
   read ''b'' (run [CallRead ''b'', CallRead ''b'']
        (settle 0 (Rejected ''gone'') (run [CallRead ''a''] (snd (read ''b'' new_service))))) =
     (0, run [CallRead ''b'', CallRead ''b'']
        (settle 0 (Rejected ''gone'') (run [CallRead ''a''] (snd (read ''b'' new_service))))) \<and>
   settled (run [CallRead ''b'', CallRead ''b'']
        (settle 0 (Rejected ''gone'') (run [CallRead ''a''] (snd (read ''b'' new_service)))))
     0 = Some (Rejected ''gone'') \<and>
   reads_of ''b'' (run [CallRead ''b'', CallRead ''b'']
        (settle 0 (Rejected ''gone'') (run [CallRead ''a''] (snd (read ''b'' new_service))))) = 1"
proof -
  have h1: "prefetchEnabled new_service" by (simp add: new_service_def)
  have h2: "prefetchCache new_service ''b'' = None" by (simp add: new_service_def)
  have h3: "issued new_service" by (rule issued_new_service)
  have h4: "CallStopPrefetch \<notin> set [CallRead ''a'']" by simp
  have h5: "CallStopPrefetch \<notin> set [CallRead ''b'', CallRead ''b'']" by simp
  have h6: "settled (run [CallRead ''a''] (snd (read ''b'' new_service)))
      (fst (read ''b'' new_service)) = None"
    by (simp add: run_def step_def read_def cachedRead_def storage_call_def new_service_def)
  have z: "fst (read ''b'' new_service) = 0" "reads_of ''b'' new_service = 0"
    by (simp_all add: read_def cachedRead_def storage_call_def new_service_def reads_of_def)
  show ?thesis
    using failed_read_stays_cached [OF h1 h2 h3 h4 h5 h6, of "''gone''", THEN conjunct2]
      h1 h2 h3 h4 h5 h6 z
    by simp
qed

subsection \<open>C10: no walk for a tree fetched after stopPrefetch\<close>

text \<open>
  Claim C10. In any state reached after \<open>stopPrefetch\<close>, \<open>getSnapshotTree\<close> only hands
  the call on: the storage receives it, its promise is returned as it is, and no callback is
  attached, because the flag is tested in the call itself. So whenever that promise
  resolves with a tree, present or not, after whatever else has happened in between
  (\<open>es2\<close>), nothing happens beyond the promise being settled: no walk, no cached read, no
  storage call.
\<close>

theorem no_walk_once_stopped:
  assumes "issued s"
  shows "getSnapshotTree version' (run es (stopPrefetch s)) =
           (length (storage (run es (stopPrefetch s))),
            (run es (stopPrefetch s))
              \<lparr>storage := storage (run es (stopPrefetch s)) @ [StorageGetSnapshotTree version']\<rparr>) \<and>
         settle (fst (getSnapshotTree version' (run es (stopPrefetch s)))) (ResolvedTree tree')
             (run es2 (snd (getSnapshotTree version' (run es (stopPrefetch s))))) =
           (if settled (run es2 (snd (getSnapshotTree version' (run es (stopPrefetch s)))))
                 (fst (getSnapshotTree version' (run es (stopPrefetch s)))) = None
            then (run es2 (snd (getSnapshotTree version' (run es (stopPrefetch s)))))
              \<lparr>settled :=
                 (settled (run es2 (snd (getSnapshotTree version' (run es (stopPrefetch s))))))
                 (fst (getSnapshotTree version' (run es (stopPrefetch s))) \<mapsto>
                    ResolvedTree tree')\<rparr>
            else run es2 (snd (getSnapshotTree version' (run es (stopPrefetch s)))))"
proof -
  let ?s' = "run es (stopPrefetch s)"
  let ?c = "StorageGetSnapshotTree version'"
  have "disabled (stopPrefetch s)" by (simp add: disabled_def stopPrefetch_def)
  then have "disabled ?s'" by (rule disabled_run)
  then have off: "\<not> prefetchEnabled ?s'" by (simp add: disabled_def)
  have i: "issued ?s'" by (rule issued_run [OF issued_stopPrefetch [OF assms]])
  have g: "getSnapshotTree version' ?s' = storage_call ?c ?s'"
    using off by (simp add: getSnapshotTree_def storage_call_def)
  have g1: "getSnapshotTree version' ?s' =
      (length (storage ?s'), ?s'\<lparr>storage := storage ?s' @ [?c]\<rparr>)"
    by (simp add: g storage_call_def)
  have "bare (length (storage ?s')) ?c (snd (storage_call ?c ?s'))"
    by (rule bare_fresh [OF i])
  then have "bare (length (storage ?s')) ?c (run es2 (snd (storage_call ?c ?s')))"
    by (rule bare_run)
  then have "settle (length (storage ?s')) (ResolvedTree tree')
        (run es2 (snd (storage_call ?c ?s'))) =
      (if settled (run es2 (snd (storage_call ?c ?s'))) (length (storage ?s')) = None
       then (run es2 (snd (storage_call ?c ?s')))
         \<lparr>settled := (settled (run es2 (snd (storage_call ?c ?s'))))
            (length (storage ?s') \<mapsto> ResolvedTree tree')\<rparr>
       else run es2 (snd (storage_call ?c ?s')))"
    by (rule settle_bare) (simp add: fits_def)
  then show ?thesis
    unfolding g using g1 [unfolded g] by (simp add: storage_call_def)
qed

text \<open>
  An instance: a tree fetched from a stopped new object and arriving after a read; the
  storage sees the fetch and the read only.
\<close>

theorem no_walk_once_stopped_witness:
  "issued new_service \<and>
   storage (settle (fst (getSnapshotTree None (run [] (stopPrefetch new_service))))
      (ResolvedTree (Some example_tree))
      (run [CallRead ''x'']
         (snd (getSnapshotTree None (run [] (stopPrefetch new_service)))))) =
     [StorageGetSnapshotTree None, StorageRead ''x'']"
proof -
  have l: "storage (run [CallRead ''x'']
         (snd (getSnapshotTree None (run [] (stopPrefetch new_service))))) =
     [StorageGetSnapshotTree None, StorageRead ''x'']"
    by (simp add: run_def step_def read_def cachedRead_def getSnapshotTree_def storage_call_def
        stopPrefetch_def new_service_def)
  show ?thesis
    using no_walk_once_stopped [OF issued_new_service, of None "[]" "Some example_tree"
        "[CallRead ''x'']", THEN conjunct2]
      issued_new_service l
    by (simp split: if_splits)
qed

text \<open>For contrast, the same tree fetched while prefetching is enabled is walked.\<close>

lemma walk_while_enabled:
  "storage (settle 0 (ResolvedTree (Some example_tree)) (snd (getSnapshotTree None new_service))) =
     [StorageGetSnapshotTree None, StorageRead ''b1'', StorageGetVersions (Some ''c1'') 1,
      StorageRead ''b'']"
  by (simp add: settle_def fits_def getSnapshotTree_def storage_call_def new_service_def
        runContinuation_def prefetchTree_def example_tree_def classifyBlob_def prefetchCommit_def
        getVersions_def readAll_def cachedRead_def charAt0_def indexOf_def)

subsection \<open>The classification of blobs\<close>

lemma indexOfFrom_range: "indexOfFrom s t i = - 1 \<or> i \<le> indexOfFrom s t i"
proof (induction s t i rule: indexOfFrom.induct)
  case (1 t i)
  then show ?case by simp
next
  case (2 c s t i)
  then show ?case by (cases "take (length t) (c # s) = t") auto
qed

lemma indexOf_0: "indexOf s t = 0 \<longleftrightarrow> take (length t) s = t"
proof (cases s)
  case Nil
  then show ?thesis by (auto simp: indexOf_def)
next
  case (Cons c s')
  show ?thesis
  proof (cases "take (length t) (c # s') = t")
    case True
    then show ?thesis by (simp add: indexOf_def Cons)
  next
    case False
    have "indexOfFrom s' t 1 = - 1 \<or> 1 \<le> indexOfFrom s' t 1" by (rule indexOfFrom_range)
    then have "indexOfFrom s' t 1 \<noteq> 0" by auto
    then show ?thesis using False by (simp add: indexOf_def Cons)
  qed
qed

lemma charAt0_single: "charAt0 k = Some t \<Longrightarrow> length t = 1"
  by (auto simp: charAt0_def split: list.splits)

text \<open>
  The test \<^verbatim>\<open>blobKey[0] !== "deltas"\<close> compares a string of one character, or \<^verbatim>\<open>undefined\<close>,
  with a string of six: it is true for every name.
\<close>

lemma deltas_test_always_true: "charAt0 blobKey \<noteq> Some ''deltas''"
  using charAt0_single [of blobKey "''deltas''"] by auto

lemma obliviousD:
  assumes "oblivious F"
  shows "F (secondary, s) = (secondary @ fst (F ([], s)), snd (F ([], s)))"
  by (rule assms [unfolded oblivious_def, rule_format])

lemma oblivious_id: "oblivious (\<lambda>a. a)"
  by (simp add: oblivious_def)

lemma oblivious_comp:
  assumes "oblivious F" "oblivious G"
  shows "oblivious (\<lambda>a. G (F a))"
  unfolding oblivious_def
proof (intro allI)
  fix secondary s
  have 1: "F (secondary, s) = (secondary @ fst (F ([], s)), snd (F ([], s)))"
    by (rule obliviousD [OF assms(1)])
  have 2: "G (secondary @ fst (F ([], s)), snd (F ([], s))) =
      ((secondary @ fst (F ([], s))) @ fst (G ([], snd (F ([], s)))), snd (G ([], snd (F ([], s)))))"
    by (rule obliviousD [OF assms(2)])
  have 3: "G (F ([], s)) = (fst (F ([], s)) @ fst (G ([], snd (F ([], s)))), snd (G ([], snd (F ([], s)))))"
    using obliviousD [OF assms(2), of "fst (F ([], s))" "snd (F ([], s))"] by simp
  show "G (F (secondary, s)) = (secondary @ fst (G (F ([], s))), snd (G (F ([], s))))"
    by (simp add: 1 2 3)
qed

lemma oblivious_fold:
  assumes "\<And>x. x \<in> set xs \<Longrightarrow> oblivious (f x)"
  shows "oblivious (fold f xs)"
  using assms
proof (induction xs)
  case Nil
  then show ?case by (simp add: oblivious_def)
next
  case (Cons x xs)
  have "oblivious (\<lambda>a. fold f xs (f x a))"
    by (rule oblivious_comp) (simp_all add: Cons)
  then show ?case by simp
qed

lemma oblivious_classifyBlob: "oblivious (classifyBlob entry)"
  by (cases entry) (simp add: oblivious_def classifyBlob_def split: option.splits)

lemma oblivious_prefetchCommit: "oblivious (prefetchCommit entry)"
  by (cases entry) (simp add: oblivious_def prefetchCommit_def split: prod.splits)

lemma oblivious_prefetchTreeCore: "oblivious (prefetchTreeCore tree')"
proof (induction tree')
  case (SnapshotTree bs cs ts)
  have t: "oblivious (fold (\<lambda>subTree. prefetchTreeCore (snd subTree)) ts)"
  proof (rule oblivious_fold)
    fix x assume "x \<in> set ts"
    then show "oblivious (prefetchTreeCore (snd x))"
      by (rule SnapshotTree.IH) (cases x, simp)
  qed
  have b: "oblivious (fold classifyBlob bs)"
    by (rule oblivious_fold) (rule oblivious_classifyBlob)
  have c: "oblivious (fold prefetchCommit cs)"
    by (rule oblivious_fold) (rule oblivious_prefetchCommit)
  have "oblivious (\<lambda>a. fold (\<lambda>subTree. prefetchTreeCore (snd subTree)) ts
          (fold prefetchCommit cs (fold classifyBlob bs a)))"
    by (rule oblivious_comp [OF oblivious_comp [OF b c] t])
  moreover have "prefetchTreeCore (SnapshotTree bs cs ts) =
      (\<lambda>a. fold (\<lambda>subTree. prefetchTreeCore (snd subTree)) ts
          (fold prefetchCommit cs (fold classifyBlob bs a)))"
    by (rule ext) simp
  ultimately show ?case by simp
qed

lemma classify_eager:
  "charAt0 blobKey = Some ''.'' \<or> blobKey = ''header'' \<or> indexOf blobKey ''quorum'' = 0 \<Longrightarrow>
   classifyBlob (blobKey, Some b) (secondary, s) = (secondary, snd (cachedRead b s))"
  by (simp add: classifyBlob_def)

lemma classify_secondary:
  "\<not> (charAt0 blobKey = Some ''.'' \<or> blobKey = ''header'' \<or> indexOf blobKey ''quorum'' = 0) \<Longrightarrow>
   classifyBlob (blobKey, Some b) (secondary, s) = (secondary @ [b], s)"
  by (simp add: classifyBlob_def deltas_test_always_true)

subsection \<open>C3: eager blobs are read while classifying, the others after the traversal\<close>

text \<open>
  Claim C3. For a tree with the blobs \<open>.attr\<close>, \<open>header\<close>, \<open>quorumMembers\<close> and
  \<open>content.txt\<close>, whatever its commits and nested trees and whatever the state: the walk
  first issues the cached reads of \<open>b1\<close>, \<open>b2\<close> and \<open>b3\<close>, in this order, while it
  classifies; then it traverses the commits and the nested trees, which is the walk of the
  same tree without its blobs, started from the state after those three reads and
  independent of \<open>b4\<close> waiting in the accumulator. The traversal ends with \<open>b4\<close> first in
  the shared accumulator, before what the nested trees added to it; only then is the
  cached read of \<open>b4\<close> issued, followed by the reads of the rest of the accumulator.
\<close>

theorem eager_then_secondary:
  "(let s3 = snd (cachedRead b3 (snd (cachedRead b2 (snd (cachedRead b1 s)))));
        rest = prefetchTreeCore (SnapshotTree [] cs ts) ([], s3)
    in prefetchTreeCore
         (SnapshotTree [(''.attr'', Some b1), (''header'', Some b2),
                        (''quorumMembers'', Some b3), (''content.txt'', Some b4)] cs ts)
         ([], s) = (b4 # fst rest, snd rest) \<and>
       prefetchTree
         (SnapshotTree [(''.attr'', Some b1), (''header'', Some b2),
                        (''quorumMembers'', Some b3), (''content.txt'', Some b4)] cs ts) s =
       readAll (fst rest) (snd (cachedRead b4 (snd rest))))"
proof -
  let ?s3 = "snd (cachedRead b3 (snd (cachedRead b2 (snd (cachedRead b1 s)))))"
  let ?rest = "prefetchTreeCore (SnapshotTree [] cs ts) ([], ?s3)"
  have 1: "classifyBlob (''.attr'', Some b1) ([], s) = ([], snd (cachedRead b1 s))"
    by (rule classify_eager) (simp add: charAt0_def)
  have 2: "classifyBlob (''header'', Some b2) ([], snd (cachedRead b1 s)) =
      ([], snd (cachedRead b2 (snd (cachedRead b1 s))))"
    by (rule classify_eager) simp
  have 3: "classifyBlob (''quorumMembers'', Some b3) ([], snd (cachedRead b2 (snd (cachedRead b1 s)))) =
      ([], ?s3)"
    by (rule classify_eager) (simp add: indexOf_0)
  have 4: "classifyBlob (''content.txt'', Some b4) ([], ?s3) = ([] @ [b4], ?s3)"
    by (rule classify_secondary) (simp add: indexOf_0 charAt0_def)
  have b: "fold classifyBlob [(''.attr'', Some b1), (''header'', Some b2),
                    (''quorumMembers'', Some b3), (''content.txt'', Some b4)] ([], s) = ([b4], ?s3)"
    by (simp add: 1 2 3 4)
  have "prefetchTreeCore (SnapshotTree [(''.attr'', Some b1), (''header'', Some b2),
                    (''quorumMembers'', Some b3), (''content.txt'', Some b4)] cs ts) ([], s) =
        prefetchTreeCore (SnapshotTree [] cs ts) ([b4], ?s3)"
    by (simp only: prefetchTreeCore.simps b fold.simps(1) id_apply)
  also have "\<dots> = ([b4] @ fst ?rest, snd ?rest)"
    by (rule obliviousD [OF oblivious_prefetchTreeCore])
  finally have c: "prefetchTreeCore (SnapshotTree [(''.attr'', Some b1), (''header'', Some b2),
                    (''quorumMembers'', Some b3), (''content.txt'', Some b4)] cs ts) ([], s) =
        (b4 # fst ?rest, snd ?rest)" by simp
  have "prefetchTree (SnapshotTree [(''.attr'', Some b1), (''header'', Some b2),
                    (''quorumMembers'', Some b3), (''content.txt'', Some b4)] cs ts) s =
        readAll (fst ?rest) (snd (cachedRead b4 (snd ?rest)))"
    by (simp add: prefetchTree_def c readAll_def del: prefetchTreeCore.simps)
  then show ?thesis
    using c by (simp only: Let_def)
qed

subsection \<open>C2: a blob named deltas\<close>

text \<open>
  Claim C2 says that a blob named \<open>deltas\<close> is excluded from the walk. The code does not
  exclude it: on a new object, the walk of a tree whose only blob is \<open>deltas\<close> puts its
  identifier on the secondary list, and then reads it from the storage and caches the
  promise.
\<close>

theorem deltas_blob_is_prefetched:
  "prefetchTreeCore (SnapshotTree [(''deltas'', Some ''d1'')] [] []) ([], new_service) =
     ([''d1''], new_service) \<and>
   storage (prefetchTree (SnapshotTree [(''deltas'', Some ''d1'')] [] []) new_service) =
     [StorageRead ''d1''] \<and>
   prefetchCache (prefetchTree (SnapshotTree [(''deltas'', Some ''d1'')] [] []) new_service) ''d1'' =
     Some 0"
  by (simp add: prefetchTree_def classifyBlob_def charAt0_def indexOf_def readAll_def
      cachedRead_def storage_call_def new_service_def)

section \<open>Properties of connect\<close>







subsection \<open>C4: connecting without a version\<close>



text \<open>For contrast, with a version the header is fetched and the deltas start at its sequence number.\<close>

lemma connect_with_version:
  "fst (connect friendly ''doc'' (Some ''v1'') True False) =
     Gives \<lparr>documentId = ''doc'', clientId = ''client-1'', existing = True,
       version = Some ''v1'',
       deltaConnection = DocumentDeltaConnection ''doc'' ''client-1'' False ''k1'' ''k2'',
       documentStorageService = DocumentStorageService ''doc'' (Some ''v1''),
       deltaStorageService = DocumentDeltaStorageService ''doc'',
       distributedObjects = [''map''], pendingDeltas = [''m8''],
       transformedMessages = [''m5''], sequenceNumber = 7, minimumSequenceNumber = 3,
       tree = None\<rparr> \<and>
   snd (connect friendly ''doc'' (Some ''v1'') True False) =
     [CallGetHeader ''doc'' ''v1'', CallEmit ''connectDocument'' (IConnect ''doc'' [] [] False),
      CallDeltaGet ''doc'' 7]"
  by (simp add: connect_def keysP_def headerP_def connectionP_def pendingDeltasP_def
      deltasFrom_def Promise_all_def inOrder_def rejection_def assemble_def friendly_def
      storedHeader_def)

subsection \<open>C5: a rejected handshake\<close>





section \<open>Properties of the routing\<close>

subsection \<open>cloneDeep returns\<close>





subsection \<open>What cloneDeep builds\<close>


lemma grows_length: "grows h stack new stack' new' \<Longrightarrow> length new \<le> length new'"
  by (simp add: grows_def)

















subsection \<open>Stores that grow or change\<close>







subsection \<open>The loop of handleMessage\<close>







subsection \<open>C8: every subscriber gets its own deep copy\<close>




text \<open>The same call evaluated: two objects are created for each subscriber.\<close>

lemma handleMessage_example:
  "handleMessage ''op'' ''doc'' (JRef 0) example_service =
     Done (example_service
       \<lparr>heap := heap example_service @
          [JObject False [(''text'', JStr ''hi''), (''ops'', JRef 3)], JObject True [(''0'', JNum 1)],
           JObject False [(''text'', JStr ''hi''), (''ops'', JRef 5)], JObject True [(''0'', JNum 1)]],
        dispatched := [(alice, ''op'', JRef 2), (bob, ''op'', JRef 4)]\<rparr>)"
  by (simp add: handleMessage_def getProperty_def forIn_def isArrayIndex_def isDigit_def
      dispatchClone_def cloneDeep_def example_service_def)

text \<open>Without a subscriber for the document or the event the message is dropped.\<close>

lemma handleMessage_no_subscriber:
  "handleMessage ''op'' ''other'' (JRef 0) example_service = Done example_service"
  "handleMessage ''nack'' ''doc'' (JRef 0) example_service = Done example_service"
  "handleMessage ''op'' ''toString'' (JRef 0) example_service = Done example_service"
  by (simp_all add: handleMessage_def getProperty_def example_service_def Object_prototype_def)

subsection \<open>C9: registering\<close>

lemma map_of_setProperty:
  "map_of (setProperty key v obj) k = (if k = key then Some v else map_of obj k)"
  by (induction obj) auto

lemma keys_setProperty:
  "map fst (setProperty key v obj) =
     (if key \<in> set (map fst obj) then map fst obj else map fst obj @ [key])"
  by (induction obj) auto

lemma map_of_keys: "map_of obj key = None \<longleftrightarrow> key \<notin> fst ` set obj"
  by (simp add: map_of_eq_None_iff)

lemma setProperty_twice: "setProperty key v (setProperty key w obj) = setProperty key v obj"
  by (induction obj) auto

text \<open>
  Claim C9 says that the first registration for an event name installs its socket
  listener. For the name \<open>toString\<close> the code installs none: \<^verbatim>\<open>"toString" in {}\<close> is true,
  since \<^verbatim>\<open>in\<close> also finds what is inherited from \<^verbatim>\<open>Object.prototype\<close>, so the code takes the
  event as listened to already, calls \<^verbatim>\<open>socket.on\<close> never, and uses the inherited function
  as the dictionary of the documents. The table gets no entry.
\<close>

theorem inherited_event_name_gets_no_listener:
  "registerForEvent ''toString'' alice (new_DocumentService []) =
     Escapes ''toString'' (new_DocumentService []) \<and>
   socketListeners (new_DocumentService []) = [] \<and>
   eventMap (new_DocumentService []) = []"
  by (simp add: registerForEvent_def hasProperty_def getProperty_def Object_prototype_def
      new_DocumentService_def)

text \<open>For contrast, the first registration for the event \<open>op\<close>.\<close>

lemma first_registration:
  "registerForEvent ''op'' alice (new_DocumentService []) =
     Done \<lparr>eventMap = [(''op'', [(''doc'', [(''alice'', alice)])])],
           socketListeners = [''op''], heap = [], dispatched = []\<rparr>"
  by (simp add: registerForEvent_def hasProperty_def getProperty_def Object_prototype_def
      new_DocumentService_def alice_def)

text \<open>
  For names that are not inherited from \<^verbatim>\<open>Object.prototype\<close> the claim holds: the event has
  exactly one listener afterwards, the listeners of the other events are as before, the
  table maps the triple to the connection registered last and every other triple as
  before.
\<close>

lemma count_list_distinct: "distinct xs \<Longrightarrow> x \<in> set xs \<Longrightarrow> count_list xs x = 1"
  by (induction xs) auto

lemma registerForEvent_ordinary:
  assumes "tidy s" and "event \<notin> set Object_prototype"
    and "DocumentDeltaConnection.documentId connection \<notin> set Object_prototype"
    and "DocumentDeltaConnection.clientId connection \<noteq> ''__proto__''"
  shows "\<exists>s'. registerForEvent event connection s = Done s' \<and> tidy s' \<and>
     count_list (socketListeners s') event = 1 \<and>
     (\<forall>e. e \<noteq> event \<longrightarrow>
        count_list (socketListeners s') e = count_list (socketListeners s) e) \<and>
     route s' event (DocumentDeltaConnection.documentId connection)
       (DocumentDeltaConnection.clientId connection) = Some connection \<and>
     (\<forall>e d c. (e, d, c) \<noteq> (event, DocumentDeltaConnection.documentId connection,
            DocumentDeltaConnection.clientId connection) \<longrightarrow>
        route s' e d c = route s e d c) \<and>
     heap s' = heap s \<and> dispatched s' = dispatched s"
proof -
  let ?d = "DocumentDeltaConnection.documentId connection"
  let ?c = "DocumentDeltaConnection.clientId connection"
  let ?om = "case map_of (eventMap s) event of None \<Rightarrow> [] | Some objectMap \<Rightarrow> objectMap"
  let ?cm = "case map_of ?om ?d of None \<Rightarrow> [] | Some connectionMap \<Rightarrow> connectionMap"
  let ?em' = "setProperty event (setProperty ?d (setProperty ?c connection ?cm) ?om) (eventMap s)"
  let ?ls' = "if event \<in> set (map fst (eventMap s)) then socketListeners s
              else socketListeners s @ [event]"
  let ?s' = "s\<lparr>eventMap := ?em', socketListeners := ?ls'\<rparr>"
  have r: "registerForEvent event connection s = Done ?s'"
    using assms(2,3,4)
  proof (cases "map_of (eventMap s) event")
    case None
    then have n: "event \<notin> fst ` set (eventMap s)" by (simp add: map_of_keys)
    show ?thesis
      using assms(2,3,4) None n
      by (simp add: registerForEvent_def hasProperty_def getProperty_def Let_def
          map_of_setProperty setProperty_twice)
  next
    case (Some objectMap)
    then have e: "event \<in> fst ` set (eventMap s)"
      using map_of_keys [of "eventMap s" event] by simp
    show ?thesis
    proof (cases "map_of objectMap ?d")
      case None
      then have n: "?d \<notin> fst ` set objectMap" by (simp add: map_of_keys)
      show ?thesis
        using assms(2,3,4) Some e None n
        by (simp add: registerForEvent_def hasProperty_def getProperty_def Let_def
            map_of_setProperty setProperty_twice)
    next
      case d: (Some connectionMap)
      then have n: "?d \<in> fst ` set objectMap"
        using map_of_keys [of objectMap ?d] by simp
      show ?thesis
        using assms(2,3,4) Some e d n
        by (simp add: registerForEvent_def hasProperty_def getProperty_def Let_def
            map_of_setProperty setProperty_twice)
    qed
  qed
  have t: "tidy ?s'"
    using assms(1) by (auto simp: tidy_def keys_setProperty)
  have c1: "count_list (socketListeners ?s') event = 1"
    using assms(1) by (auto simp: tidy_def count_list_distinct)
  have c2: "\<forall>e. e \<noteq> event \<longrightarrow>
        count_list (socketListeners ?s') e = count_list (socketListeners s) e"
    by auto
  have r1: "route ?s' event ?d ?c = Some connection"
    by (simp add: route_def map_of_setProperty)
  have r2: "\<forall>e d c. (e, d, c) \<noteq> (event, ?d, ?c) \<longrightarrow> route ?s' e d c = route s e d c"
    by (auto simp: route_def map_of_setProperty split: option.splits)
  show ?thesis using r t c1 c2 r1 r2 by simp
qed

lemma tidy_new: "tidy (new_DocumentService h)"
  by (simp add: tidy_def new_DocumentService_def)

text \<open>A listener is installed only for a name that is not inherited.\<close>

lemma listener_installed_only_for_own_names:
  assumes "registerForEvent event connection s = Done s' \<or>
           registerForEvent event connection s = Escapes key s'"
  shows "socketListeners s' = socketListeners s \<or>
         (event \<notin> set Object_prototype \<and> socketListeners s' = socketListeners s @ [event])"
  using assms
  by (auto simp: registerForEvent_def hasProperty_def getProperty_def Let_def
      split: if_splits property.splits)

lemma latest_Cons:
  "latest (r # rs) e d c =
     (case latest rs e d c of
        Some conn \<Rightarrow> Some conn
      | None \<Rightarrow> if matches e d c r then Some (snd r) else None)"
  by (auto simp: latest_def split: list.splits)

lemma registerForEvent_listeners:
  assumes "tidy s" and "ordinary (event, connection)"
  shows "\<exists>s'. registerForEvent event connection s = Done s' \<and> tidy s' \<and>
     socketListeners s' =
       (if event \<in> set (socketListeners s) then socketListeners s
        else socketListeners s @ [event]) \<and>
     (\<forall>e d c. route s' e d c =
        (if matches e d c (event, connection) then Some connection else route s e d c))"
proof -
  have o: "event \<notin> set Object_prototype"
    "DocumentDeltaConnection.documentId connection \<notin> set Object_prototype"
    "DocumentDeltaConnection.clientId connection \<noteq> ''__proto__''"
    using assms(2) by (simp_all add: ordinary_def)
  from registerForEvent_ordinary [OF assms(1) o]
  obtain s' where r: "registerForEvent event connection s = Done s'" and t: "tidy s'"
    and c1: "count_list (socketListeners s') event = 1"
    and c2: "\<forall>e. e \<noteq> event \<longrightarrow>
        count_list (socketListeners s') e = count_list (socketListeners s) e"
    and r1: "route s' event (DocumentDeltaConnection.documentId connection)
       (DocumentDeltaConnection.clientId connection) = Some connection"
    and r2: "\<forall>e d c. (e, d, c) \<noteq> (event, DocumentDeltaConnection.documentId connection,
            DocumentDeltaConnection.clientId connection) \<longrightarrow>
        route s' e d c = route s e d c"
    by (elim exE conjE) (rule that; assumption)
  have l: "socketListeners s' =
       (if event \<in> set (socketListeners s) then socketListeners s
        else socketListeners s @ [event])"
    using r assms(1) o
    by (auto simp: registerForEvent_def hasProperty_def getProperty_def Let_def tidy_def
        split: if_splits property.splits)
  have "route s' e d c =
        (if matches e d c (event, connection) then Some connection else route s e d c)" for e d c
    using r1 r2 by (auto simp: matches_def)
  then show ?thesis using r t l by blast
qed

text \<open>
  So for every sequence of such registrations on a new service: each event registered
  has exactly one listener, and the table maps every triple to the connection registered
  last for it.
\<close>

lemma registerAll_ordinary:
  "tidy s \<Longrightarrow> list_all ordinary rs \<Longrightarrow>
   \<exists>s'. registerAll rs s = Done s' \<and> tidy s' \<and>
     distinct (socketListeners s') \<and>
     set (socketListeners s') = set (socketListeners s) \<union> fst ` set rs \<and>
     (\<forall>e d c. route s' e d c =
        (case latest rs e d c of Some conn \<Rightarrow> Some conn | None \<Rightarrow> route s e d c))"
proof (induction rs arbitrary: s)
  case Nil
  then show ?case by (simp add: latest_def tidy_def)
next
  case (Cons r rs)
  have o: "ordinary (fst r, snd r)" and os: "list_all ordinary rs"
    using Cons.prems(2) by simp_all
  from registerForEvent_listeners [OF Cons.prems(1) o]
  obtain s1 where r1: "registerForEvent (fst r) (snd r) s = Done s1" and t1: "tidy s1"
    and l1: "socketListeners s1 =
       (if fst r \<in> set (socketListeners s) then socketListeners s
        else socketListeners s @ [fst r])"
    and ro1: "\<forall>e d c. route s1 e d c =
        (if matches e d c (fst r, snd r) then Some (snd r) else route s e d c)"
    by (elim exE conjE) (rule that; assumption)
  from Cons.IH [OF t1 os]
  obtain s' where r': "registerAll rs s1 = Done s'" and t': "tidy s'"
    and d': "distinct (socketListeners s')"
    and l': "set (socketListeners s') = set (socketListeners s1) \<union> fst ` set rs"
    and ro': "\<forall>e d c. route s' e d c =
        (case latest rs e d c of Some conn \<Rightarrow> Some conn | None \<Rightarrow> route s1 e d c)"
    by (elim exE conjE) (rule that; assumption)
  have 1: "registerAll (r # rs) s = Done s'" by (simp add: r1 r')
  have 2: "set (socketListeners s') = set (socketListeners s) \<union> fst ` set (r # rs)"
    using l' l1 by auto
  have 3: "route s' e d c =
        (case latest (r # rs) e d c of Some conn \<Rightarrow> Some conn | None \<Rightarrow> route s e d c)"
    for e d c
    using ro' ro1 by (simp add: latest_Cons split: option.splits)
  show ?case using 1 t' d' 2 3 by blast
qed

end
